theory Spec2Isabelle
  imports Main
begin

section \<open>Distances: Python numbers with \<open>float('inf')\<close>\<close>

text \<open>
  The engines compute with Python integers (edge weights, unbounded) and the one
  float \<open>float('inf')\<close>.  \<open>Fin x\<close> is the integer \<open>x\<close>, \<open>Infty\<close> is \<open>float('inf')\<close>.
  The order below is Python's comparison of these values, which is exact between an
  integer and a float: \<open>inf < inf = False\<close> and \<open>x < inf = True\<close> for every integer
  \<open>x\<close>.  The sum below is the exact sum of extended integers, in which the weight of a
  path is measured.  It is not Python's \<open>+\<close>: that is \<open>py_add\<close> further down, which
  raises an error where the integer operand has no float.
\<close>

datatype dist = Fin int | Infty

instantiation dist :: "{zero, plus, ord}"
begin

definition zero_dist :: dist where
  "zero_dist = Fin 0"

fun plus_dist :: "dist \<Rightarrow> dist \<Rightarrow> dist" where
  "plus_dist (Fin x) (Fin y) = Fin (x + y)"
| "plus_dist _ _ = Infty"

fun less_eq_dist :: "dist \<Rightarrow> dist \<Rightarrow> bool" where
  "less_eq_dist (Fin x) (Fin y) = (x \<le> y)"
| "less_eq_dist _ Infty = True"
| "less_eq_dist Infty (Fin y) = False"

fun less_dist :: "dist \<Rightarrow> dist \<Rightarrow> bool" where
  "less_dist (Fin x) (Fin y) = (x < y)"
| "less_dist (Fin x) Infty = True"
| "less_dist Infty _ = False"

instance ..

end

instance dist :: linorder
proof
  fix x y z :: dist
  show "(x < y) = (x \<le> y \<and> \<not> y \<le> x)"
    by (cases x; cases y) auto
  show "x \<le> x"
    by (cases x) auto
  show "x \<le> y \<Longrightarrow> y \<le> z \<Longrightarrow> x \<le> z"
    by (cases x; cases y; cases z) auto
  show "x \<le> y \<Longrightarrow> y \<le> x \<Longrightarrow> x = y"
    by (cases x; cases y) auto
  show "x \<le> y \<or> y \<le> x"
    by (cases x; cases y) auto
qed

instance dist :: comm_monoid_add
proof
  fix a b c :: dist
  show "a + b + c = a + (b + c)"
    by (cases a; cases b; cases c) auto
  show "a + b = b + a"
    by (cases a; cases b) auto
  show "0 + a = a"
    by (cases a) (auto simp: zero_dist_def)
qed

instance dist :: ordered_ab_semigroup_add
proof
  fix a b c :: dist
  show "a \<le> b \<Longrightarrow> c + a \<le> c + b"
    by (cases a; cases b; cases c) auto
qed

instance dist :: ordered_comm_monoid_add ..

section \<open>Graphs and errors\<close>

text \<open>
  The engines read a graph through \<open>graph.nodes()\<close> and \<open>graph.edges(data='weight')\<close>
  only.  A graph is what these two calls give: the node labels in iteration order and the
  sequence of triples \<open>(u, v, weight)\<close>, together with the flag telling whether the
  object is a \<open>Graph\<close> (undirected: every edge is stored and yielded once) or a
  \<open>DiGraph\<close>.
\<close>

type_synonym node = int

type_synonym edge = "node \<times> node \<times> int"

record graph =
  directed :: bool
  nodes :: "node list"
  edges :: "edge list"

text \<open>
  \<open>KeyError\<close> and \<open>IndexError\<close> are what a dict or list access outside its
  keys or range raises; \<open>OverflowError\<close> is what the conversion of too large an integer
  to a float raises; \<open>NegativeCycleError\<close> is the
  \<open>ValueError("Graph contains a negative cycle")\<close> of \<open>bellman_ford\<close>.
\<close>

datatype error = KeyError node | IndexError | OverflowError | NegativeCycleError

text \<open>
  Python's \<open>+\<close> on the values above.  Two integers add exactly, and \<open>inf + inf\<close> is
  \<open>inf\<close>.  For an integer and \<open>inf\<close>, in either order, the integer is first converted
  to a float, and the conversion raises \<open>OverflowError\<close> ("int too large to convert to
  float") when the integer rounds to a magnitude of \<open>2^1024\<close> or more: the largest
  float is \<open>2^1024 - 2^971\<close> and rounding is to nearest, so this is from the magnitude
  \<open>2^1024 - 2^970\<close> on.  Otherwise the sum is \<open>inf\<close>.
\<close>

definition float_limit :: int where
  "float_limit = 2 ^ 1024 - 2 ^ 970"

definition fits_float :: "int \<Rightarrow> bool" where
  "fits_float x \<longleftrightarrow> - float_limit < x \<and> x < float_limit"

fun py_add :: "dist \<Rightarrow> dist \<Rightarrow> error + dist" where
  "py_add (Fin x) (Fin y) = Inr (Fin (x + y))"
| "py_add (Fin x) Infty = (if fits_float x then Inr Infty else Inl OverflowError)"
| "py_add Infty (Fin y) = (if fits_float y then Inr Infty else Inl OverflowError)"
| "py_add Infty Infty = Inr Infty"

text \<open>A \<open>for\<close> loop over a sequence whose body may raise: the first error ends the loop.\<close>

fun for_each :: "'a list \<Rightarrow> ('a \<Rightarrow> 's \<Rightarrow> error + 's) \<Rightarrow> 's \<Rightarrow> error + 's" where
  "for_each [] body s = Inr s"
| "for_each (x # xs) body s =
     (case body x s of Inl e \<Rightarrow> Inl e | Inr s' \<Rightarrow> for_each xs body s')"

section \<open>Bellman-Ford\<close>

type_synonym dvec = "node \<rightharpoonup> dist"

definition lookup :: "dvec \<Rightarrow> node \<Rightarrow> error + dist" where
  "lookup distances u = (case distances u of None \<Rightarrow> Inl (KeyError u) | Some d \<Rightarrow> Inr d)"

text \<open>
  The body of the relaxation loop, lines 29-30.  The condition reads \<open>distances[u]\<close>,
  adds the weight, then reads \<open>distances[v]\<close>; line 30 computes the same sum again, from
  the same dictionary, and stores it.
\<close>

definition relax :: "edge \<Rightarrow> dvec \<Rightarrow> error + dvec" where
  "relax e distances =
     (case e of (u, v, weight) \<Rightarrow>
        (case lookup distances u of Inl x \<Rightarrow> Inl x | Inr du \<Rightarrow>
        (case py_add du (Fin weight) of Inl x \<Rightarrow> Inl x | Inr t \<Rightarrow>
        (case lookup distances v of Inl x \<Rightarrow> Inl x | Inr dv \<Rightarrow>
           if t < dv then Inr (distances(v \<mapsto> t))
           else Inr distances))))"

text \<open>The body of the final scan, lines 34-35.\<close>

definition check :: "edge \<Rightarrow> dvec \<Rightarrow> error + dvec" where
  "check e distances =
     (case e of (u, v, weight) \<Rightarrow>
        (case lookup distances u of Inl x \<Rightarrow> Inl x | Inr du \<Rightarrow>
        (case py_add du (Fin weight) of Inl x \<Rightarrow> Inl x | Inr t \<Rightarrow>
        (case lookup distances v of Inl x \<Rightarrow> Inl x | Inr dv \<Rightarrow>
           if t < dv then Inl NegativeCycleError
           else Inr distances))))"

definition init_distances :: "graph \<Rightarrow> node \<Rightarrow> dvec" where
  "init_distances g source = (map_of (map (\<lambda>n. (n, Infty)) (nodes g)))(source \<mapsto> Fin 0)"

definition bellman_ford :: "graph \<Rightarrow> node \<Rightarrow> error + dvec" where
  "bellman_ford g source =
     (case for_each [0 ..< length (nodes g) - 1] (\<lambda>_. for_each (edges g) relax)
             (init_distances g source) of
        Inl x \<Rightarrow> Inl x
      | Inr distances \<Rightarrow> for_each (edges g) check distances)"

section \<open>Floyd-Warshall\<close>

type_synonym matrix = "dist list list"

text \<open>
  Python list indexing: an index in \<open>[0, n)\<close> is itself, one in \<open>[-n, 0)\<close> counts from
  the end, any other raises \<open>IndexError\<close>.
\<close>

definition py_index :: "nat \<Rightarrow> int \<Rightarrow> error + nat" where
  "py_index n i =
     (if 0 \<le> i \<and> i < int n then Inr (nat i)
      else if - int n \<le> i \<and> i < 0 then Inr (nat (int n + i))
      else Inl IndexError)"

definition get_cell :: "matrix \<Rightarrow> int \<Rightarrow> int \<Rightarrow> error + dist" where
  "get_cell m i j =
     (case py_index (length m) i of Inl x \<Rightarrow> Inl x | Inr r \<Rightarrow>
     (case py_index (length (m ! r)) j of Inl x \<Rightarrow> Inl x | Inr c \<Rightarrow> Inr (m ! r ! c)))"

definition set_cell :: "int \<Rightarrow> int \<Rightarrow> dist \<Rightarrow> matrix \<Rightarrow> error + matrix" where
  "set_cell i j x m =
     (case py_index (length m) i of Inl e \<Rightarrow> Inl e | Inr r \<Rightarrow>
     (case py_index (length (m ! r)) j of Inl e \<Rightarrow> Inl e | Inr c \<Rightarrow>
        Inr (m[r := (m ! r)[c := x]])))"

text \<open>Line 63: the three reads, the sum, the minimum, then the write.\<close>

definition relax_cell :: "nat \<Rightarrow> nat \<Rightarrow> nat \<Rightarrow> matrix \<Rightarrow> error + matrix" where
  "relax_cell k i j m =
     (case get_cell m (int i) (int j) of Inl e \<Rightarrow> Inl e | Inr a \<Rightarrow>
     (case get_cell m (int i) (int k) of Inl e \<Rightarrow> Inl e | Inr b \<Rightarrow>
     (case get_cell m (int k) (int j) of Inl e \<Rightarrow> Inl e | Inr c \<Rightarrow>
     (case py_add b c of Inl e \<Rightarrow> Inl e | Inr t \<Rightarrow>
        set_cell (int i) (int j) (min a t) m))))"

text \<open>
  Lines 51-58: the matrix before the relaxation loops.  The comprehension builds one fresh
  row per node, so no two rows are the same list object and a write changes one cell.
\<close>

definition init_matrix :: "graph \<Rightarrow> error + matrix" where
  "init_matrix g =
     (let num_nodes = length (nodes g);
          distances = replicate num_nodes (replicate num_nodes Infty)
      in case for_each (edges g) (\<lambda>(u, v, weight). set_cell u v (Fin weight)) distances of
           Inl e \<Rightarrow> Inl e
         | Inr d1 \<Rightarrow> for_each [0 ..< num_nodes] (\<lambda>i. set_cell (int i) (int i) (Fin 0)) d1)"

text \<open>Lines 60-63: the three nested loops, \<open>k\<close> outermost.\<close>

definition relax_matrix :: "nat \<Rightarrow> matrix \<Rightarrow> error + matrix" where
  "relax_matrix num_nodes =
     for_each [0 ..< num_nodes] (\<lambda>k.
       for_each [0 ..< num_nodes] (\<lambda>i.
         for_each [0 ..< num_nodes] (\<lambda>j. relax_cell k i j)))"

definition floyd_warshall :: "graph \<Rightarrow> error + matrix" where
  "floyd_warshall g =
     (case init_matrix g of
        Inl e \<Rightarrow> Inl e
      | Inr distances \<Rightarrow> relax_matrix (length (nodes g)) distances)"

section \<open>The engines as programs on the graph object\<close>

text \<open>
  The graph is a mutable object that the caller keeps.  A program takes the object and
  gives it back, changed or not, with a value or the error it raised.  The engines call
  two methods of the object, \<open>graph.nodes()\<close> and \<open>graph.edges(data='weight')\<close>; both
  are views that change nothing, and the second yields the weights themselves, not the
  attribute dictionaries of the edges.  Every other statement of an engine works on
  \<open>distances\<close>, a dictionary or a list of lists that the engine has built itself.
\<close>

type_synonym 'a prog = "graph \<Rightarrow> (error + 'a) \<times> graph"

definition nodes_view :: "node list prog" where
  "nodes_view g = (Inr (nodes g), g)"

definition edges_view :: "edge list prog" where
  "edges_view g = (Inr (edges g), g)"

text \<open>A statement that reads and writes local objects only.\<close>

definition local_step :: "error + 'a \<Rightarrow> 'a prog" where
  "local_step r g = (r, g)"

text \<open>Sequencing: an error ends the program, with the object as it is by then.\<close>

definition then_do :: "'a prog \<Rightarrow> ('a \<Rightarrow> 'b prog) \<Rightarrow> 'b prog" where
  "then_do p f g = (case p g of (Inl e, g') \<Rightarrow> (Inl e, g') | (Inr x, g') \<Rightarrow> f x g')"




section \<open>Specification vocabulary\<close>

text \<open>
  What the claims speak of: the invariants of a graph object, walks and their weights,
  reachability and negative cycles.  An engine reads the stored triples as directed
  steps \<open>u \<rightarrow> v\<close>, so a walk is a list of nodes, each step of which is a stored triple.
\<close>

definition closed_edges :: "edge list \<Rightarrow> node set \<Rightarrow> bool" where
  "closed_edges E V \<longleftrightarrow> (\<forall>(u, v, w) \<in> set E. u \<in> V \<and> v \<in> V)"

text \<open>
  The invariants of a \<open>Graph\<close> or \<open>DiGraph\<close> object: the node view has no
  repetition, every edge joins two nodes of the graph, an ordered pair carries one weight,
  and an undirected graph yields each edge in one orientation only.
\<close>

definition graph_inv :: "graph \<Rightarrow> bool" where
  "graph_inv g \<longleftrightarrow>
     distinct (nodes g) \<and>
     closed_edges (edges g) (set (nodes g)) \<and>
     distinct (map (\<lambda>(u, v, w). (u, v)) (edges g)) \<and>
     (\<not> directed g \<longrightarrow> (\<forall>(u, v, w) \<in> set (edges g). \<forall>w'. u \<noteq> v \<longrightarrow> (v, u, w') \<notin> set (edges g)))"

text \<open>The node labels are exactly \<open>0, ..., N - 1\<close>.\<close>

definition labelled_by_range :: "graph \<Rightarrow> bool" where
  "labelled_by_range g \<longleftrightarrow> set (nodes g) = {0 ..< int (length (nodes g))}"

text \<open>The weight of the step \<open>a \<rightarrow> b\<close>: the least stored weight, \<open>Infty\<close> when no triple joins them.\<close>

fun wt :: "edge list \<Rightarrow> node \<Rightarrow> node \<Rightarrow> dist" where
  "wt [] a b = Infty"
| "wt ((u, v, w) # es) a b = (if u = a \<and> v = b then min (Fin w) (wt es a b) else wt es a b)"

text \<open>The summed weight of the steps of a node list; \<open>Infty\<close> when a step is no edge.\<close>

fun path_weight :: "('a \<Rightarrow> 'a \<Rightarrow> dist) \<Rightarrow> 'a list \<Rightarrow> dist" where
  "path_weight W (x # y # p) = W x y + path_weight W (y # p)"
| "path_weight W _ = 0"

text \<open>
  Walks, reachability and negative cycles follow the stored triples.  Those of a directed
  graph are all the steps of the graph; those of an undirected graph are one orientation
  of each edge, the one an engine reads.
\<close>

definition walk_from :: "node \<Rightarrow> node list \<Rightarrow> bool" where
  "walk_from s p \<longleftrightarrow> p \<noteq> [] \<and> hd p = s"

definition reachable :: "graph \<Rightarrow> node \<Rightarrow> node \<Rightarrow> bool" where
  "reachable g s v \<longleftrightarrow>
     (\<exists>p. walk_from s p \<and> last p = v \<and> path_weight (wt (edges g)) p \<noteq> Infty)"

text \<open>A closed walk through \<open>x\<close> (a self-loop included) of negative total weight.\<close>

definition negative_cycle_at :: "graph \<Rightarrow> node \<Rightarrow> bool" where
  "negative_cycle_at g x \<longleftrightarrow> (\<exists>ys. path_weight (wt (edges g)) (x # ys @ [x]) < 0)"

definition has_negative_cycle :: "graph \<Rightarrow> bool" where
  "has_negative_cycle g \<longleftrightarrow> (\<exists>x. negative_cycle_at g x)"

text \<open>The value a distance vector holds for a node, \<open>Infty\<close> for a missing key.\<close>

definition val :: "dvec \<Rightarrow> node \<Rightarrow> dist" where
  "val d v = (case d v of None \<Rightarrow> Infty | Some x \<Rightarrow> x)"

text \<open>Every weight of the graph has a float: no sum \<open>inf + weight\<close> raises.\<close>

definition float_weights :: "graph \<Rightarrow> bool" where
  "float_weights g \<longleftrightarrow> (\<forall>(u, v, w) \<in> set (edges g). fits_float w)"

text \<open>
  The weights are small for the size of the graph: \<open>N + 1\<close> times the magnitude of a
  weight stays below the magnitude from which the conversion to a float fails.  A path
  that repeats no inner node has at most \<open>N + 1\<close> steps, so its weight has a float.
\<close>

definition small_weights :: "graph \<Rightarrow> bool" where
  "small_weights g \<longleftrightarrow>
     (\<forall>(u, v, w) \<in> set (edges g). (int (length (nodes g)) + 1) * \<bar>w\<bar> < float_limit)"

text \<open>
  The steps along which the data model of the specification lets a graph be traversed:
  the stored triples, and for an undirected graph their reverses too.
\<close>

definition arcs :: "graph \<Rightarrow> edge list" where
  "arcs g = (if directed g then edges g else edges g @ map (\<lambda>(u, v, w). (v, u, w)) (edges g))"

subsection \<open>Example graphs\<close>

text \<open>The negative cycle of the specification: \<open>0 \<rightarrow> 1 (1)\<close>, \<open>1 \<rightarrow> 2 (-3)\<close>, \<open>2 \<rightarrow> 0 (1)\<close>.\<close>

definition cycle_example :: graph where
  "cycle_example = \<lparr>directed = True, nodes = [0, 1, 2], edges = [(0, 1, 1), (1, 2, - 3), (2, 0, 1)]\<rparr>"

text \<open>The known fixture: \<open>0 \<rightarrow> 1 (4)\<close>, \<open>1 \<rightarrow> 2 (3)\<close>, \<open>0 \<rightarrow> 2 (10)\<close>.\<close>

definition fixture :: graph where
  "fixture = \<lparr>directed = True, nodes = [0, 1, 2], edges = [(0, 1, 4), (1, 2, 3), (0, 2, 10)]\<rparr>"

text \<open>An undirected graph with the one edge \<open>0 - 1\<close> of weight 5.\<close>

definition single_edge :: graph where
  "single_edge = \<lparr>directed = False, nodes = [0, 1], edges = [(0, 1, 5)]\<rparr>"

text \<open>A directed two-node cycle of total weight \<open>-2\<close>.\<close>

definition two_cycle :: graph where
  "two_cycle = \<lparr>directed = True, nodes = [0, 1], edges = [(0, 1, 1), (1, 0, - 3)]\<rparr>"

text \<open>A graph with the one node 0 and no edge.\<close>

definition lone_node :: graph where
  "lone_node = \<lparr>directed = True, nodes = [0], edges = []\<rparr>"

text \<open>One directed edge \<open>0 \<rightarrow> 1\<close> whose weight \<open>2^1024\<close> has no float.\<close>

definition big_edge :: graph where
  "big_edge = \<lparr>directed = True, nodes = [0, 1], edges = [(0, 1, 2 ^ 1024)]\<rparr>"

text \<open>
  A directed cycle \<open>0 \<rightarrow> 1 \<rightarrow> 0\<close> of weight \<open>-2\<close>, and a node 2 that the source 0
  does not reach, with an edge \<open>2 \<rightarrow> 0\<close> whose weight has no float.  The triples are in
  the order in which a \<open>DiGraph\<close> yields them: by source node.
\<close>

definition overflow_cycle :: graph where
  "overflow_cycle =
     \<lparr>directed = True, nodes = [0, 1, 2], edges = [(0, 1, - 1), (1, 0, - 1), (2, 0, 2 ^ 1024)]\<rparr>"

text \<open>
  An undirected triangle, \<open>0 - 1\<close> of weight 1, \<open>0 - 2\<close> of weight \<open>-5\<close>,
  \<open>1 - 2\<close> of weight 1: traversed as \<open>0, 1, 2, 0\<close> it is a cycle of weight \<open>-3\<close>.
\<close>

definition undirected_triangle :: graph where
  "undirected_triangle =
     \<lparr>directed = False, nodes = [0, 1, 2], edges = [(0, 1, 1), (0, 2, - 5), (1, 2, 1)]\<rparr>"

section \<open>Invariants used in the proofs\<close>

subsection \<open>The engines over the exact sum\<close>

text \<open>
  The loops of the two engines with the exact sum of extended integers in place of
  \<open>py_add\<close>: nothing else differs, and no sum raises.  A call of an engine that does not
  end in \<open>OverflowError\<close> has the outcome of its exact variant (lemmas
  \<open>bellman_ford_sim\<close> and \<open>floyd_warshall_sim\<close>), and the invariants of the loops are
  proved on the exact variants.  No claim is stated about them.
\<close>

definition relax_exact :: "edge \<Rightarrow> dvec \<Rightarrow> error + dvec" where
  "relax_exact e distances =
     (case e of (u, v, weight) \<Rightarrow>
        (case lookup distances u of Inl x \<Rightarrow> Inl x | Inr du \<Rightarrow>
        (case lookup distances v of Inl x \<Rightarrow> Inl x | Inr dv \<Rightarrow>
           if du + Fin weight < dv then Inr (distances(v \<mapsto> du + Fin weight))
           else Inr distances)))"

definition check_exact :: "edge \<Rightarrow> dvec \<Rightarrow> error + dvec" where
  "check_exact e distances =
     (case e of (u, v, weight) \<Rightarrow>
        (case lookup distances u of Inl x \<Rightarrow> Inl x | Inr du \<Rightarrow>
        (case lookup distances v of Inl x \<Rightarrow> Inl x | Inr dv \<Rightarrow>
           if du + Fin weight < dv then Inl NegativeCycleError
           else Inr distances)))"

definition bellman_ford_exact :: "graph \<Rightarrow> node \<Rightarrow> error + dvec" where
  "bellman_ford_exact g source =
     (case for_each [0 ..< length (nodes g) - 1] (\<lambda>_. for_each (edges g) relax_exact)
             (init_distances g source) of
        Inl x \<Rightarrow> Inl x
      | Inr distances \<Rightarrow> for_each (edges g) check_exact distances)"

definition relax_cell_exact :: "nat \<Rightarrow> nat \<Rightarrow> nat \<Rightarrow> matrix \<Rightarrow> error + matrix" where
  "relax_cell_exact k i j m =
     (case get_cell m (int i) (int j) of Inl e \<Rightarrow> Inl e | Inr a \<Rightarrow>
     (case get_cell m (int i) (int k) of Inl e \<Rightarrow> Inl e | Inr b \<Rightarrow>
     (case get_cell m (int k) (int j) of Inl e \<Rightarrow> Inl e | Inr c \<Rightarrow>
        set_cell (int i) (int j) (min a (b + c)) m)))"

definition relax_matrix_exact :: "nat \<Rightarrow> matrix \<Rightarrow> error + matrix" where
  "relax_matrix_exact num_nodes =
     for_each [0 ..< num_nodes] (\<lambda>k.
       for_each [0 ..< num_nodes] (\<lambda>i.
         for_each [0 ..< num_nodes] (\<lambda>j. relax_cell_exact k i j)))"

definition floyd_warshall_exact :: "graph \<Rightarrow> error + matrix" where
  "floyd_warshall_exact g =
     (case init_matrix g of
        Inl e \<Rightarrow> Inl e
      | Inr distances \<Rightarrow> relax_matrix_exact (length (nodes g)) distances)"

subsection \<open>Invariants of the loops\<close>

text \<open>An \<open>n \<times> n\<close> matrix.\<close>

definition square :: "nat \<Rightarrow> matrix \<Rightarrow> bool" where
  "square n m \<longleftrightarrow> length m = n \<and> (\<forall>r \<in> set m. length r = n)"

text \<open>
  Floyd-Warshall: a cell value \<open>x\<close> for the pair \<open>(a, b)\<close> is below every path from
  \<open>a\<close> to \<open>b\<close> whose inner nodes are below \<open>K\<close>, and is \<open>Infty\<close> or the weight of
  such a path.
\<close>

definition lowerb :: "(nat \<Rightarrow> nat \<Rightarrow> dist) \<Rightarrow> nat \<Rightarrow> nat \<Rightarrow> nat \<Rightarrow> dist \<Rightarrow> bool" where
  "lowerb W K a b x \<longleftrightarrow> (\<forall>p. set p \<subseteq> {..<K} \<longrightarrow> x \<le> path_weight W (a # p @ [b]))"

definition upperb :: "(nat \<Rightarrow> nat \<Rightarrow> dist) \<Rightarrow> nat \<Rightarrow> nat \<Rightarrow> nat \<Rightarrow> dist \<Rightarrow> bool" where
  "upperb W n a b x \<longleftrightarrow> x = Infty \<or> (\<exists>p. set p \<subseteq> {..<n} \<and> x = path_weight W (a # p @ [b]))"

definition nonneg_cycles :: "(nat \<Rightarrow> nat \<Rightarrow> dist) \<Rightarrow> nat \<Rightarrow> bool" where
  "nonneg_cycles W n \<longleftrightarrow> (\<forall>x p. x < n \<longrightarrow> set p \<subseteq> {..<n} \<longrightarrow> 0 \<le> path_weight W (x # p @ [x]))"

text \<open>
  The state of the matrix inside round \<open>k\<close>, before cell \<open>(i, j)\<close> is relaxed: a
  cell already visited has the two bounds of round \<open>k + 1\<close>, a cell not yet visited
  those of round \<open>k\<close>.
\<close>

definition fw_mid :: "(nat \<Rightarrow> nat \<Rightarrow> dist) \<Rightarrow> nat \<Rightarrow> nat \<Rightarrow> nat \<Rightarrow> nat \<Rightarrow> matrix \<Rightarrow> bool" where
  "fw_mid W n k i j m \<longleftrightarrow>
     square n m \<and>
     (\<forall>a<n. \<forall>b<n. upperb W (Suc k) a b (m ! a ! b) \<and> lowerb W k a b (m ! a ! b)) \<and>
     (\<forall>a<n. \<forall>b<n. a < i \<or> (a = i \<and> b < j) \<longrightarrow> lowerb W (Suc k) a b (m ! a ! b)) \<and>
     (\<forall>a<n. \<forall>b<n. \<not> (a < i \<or> (a = i \<and> b < j)) \<longrightarrow> upperb W k a b (m ! a ! b))"

text \<open>
  The steps of finite weight are bounded by \<open>B\<close>, and \<open>n + 1\<close> of them stay below the
  magnitude from which an integer has no float.
\<close>

definition weight_bound :: "(nat \<Rightarrow> nat \<Rightarrow> dist) \<Rightarrow> nat \<Rightarrow> int \<Rightarrow> bool" where
  "weight_bound W n B \<longleftrightarrow>
     0 \<le> B \<and> (int n + 1) * B < float_limit \<and> (\<forall>x y w. W x y = Fin w \<longrightarrow> \<bar>w\<bar> \<le> B)"

text \<open>The cell \<open>(a, b)\<close> of the matrix before the relaxation loops, and the same on nodes.\<close>

definition step_weight :: "edge list \<Rightarrow> nat \<Rightarrow> nat \<Rightarrow> dist" where
  "step_weight E a b = (if a = b then 0 else wt E (int a) (int b))"

definition wt0 :: "edge list \<Rightarrow> node \<Rightarrow> node \<Rightarrow> dist" where
  "wt0 E x y = (if x = y then 0 else wt E x y)"

text \<open>
  Bellman-Ford: every finite entry is at least the weight of a walk from the source, and
  after \<open>i\<close> passes every entry is below each walk of at most \<open>i\<close> steps.
\<close>

definition reached :: "edge list \<Rightarrow> node \<Rightarrow> dvec \<Rightarrow> bool" where
  "reached E s d \<longleftrightarrow>
     (\<forall>v. val d v = Infty \<or> (\<exists>p. walk_from s p \<and> last p = v \<and> path_weight (wt E) p \<le> val d v))"

definition bounded :: "edge list \<Rightarrow> node \<Rightarrow> nat \<Rightarrow> dvec \<Rightarrow> bool" where
  "bounded E s i d \<longleftrightarrow>
     (\<forall>p. walk_from s p \<and> length p \<le> Suc i \<longrightarrow> val d (last p) \<le> path_weight (wt E) p)"

definition bf_inv :: "edge list \<Rightarrow> node \<Rightarrow> node set \<Rightarrow> nat \<Rightarrow> dvec \<Rightarrow> bool" where
  "bf_inv E s D i d \<longleftrightarrow> dom d = D \<and> reached E s d \<and> bounded E s i d \<and> val d s \<le> 0"

section \<open>Loops and matrix cells\<close>

lemma for_each_append:
  "for_each (xs @ ys) body s =
     (case for_each xs body s of Inl e \<Rightarrow> Inl e | Inr s' \<Rightarrow> for_each ys body s')"
  by (induction xs arbitrary: s) (auto split: sum.splits)

lemma for_each_upt_rule:
  assumes "I 0 s"
    and "\<And>j t. j < n \<Longrightarrow> I j t \<Longrightarrow> \<exists>t'. body j t = Inr t' \<and> I (Suc j) t'"
  shows "\<exists>s'. for_each [0 ..< n] body s = Inr s' \<and> I n s'"
  using assms(2)
proof (induction n)
  case 0
  then show ?case using assms(1) by simp
next
  case (Suc n)
  then obtain t where t: "for_each [0 ..< n] body s = Inr t" "I n t"
    by (metis less_Suc_eq)
  from Suc.prems [of n t] t obtain t' where "body n t = Inr t'" "I (Suc n) t'"
    by auto
  with t show ?case
    by (simp add: for_each_append)
qed

lemma for_each_list_rule:
  assumes "I s"
    and "\<And>x t. x \<in> set xs \<Longrightarrow> I t \<Longrightarrow> \<exists>t'. body x t = Inr t' \<and> I t'"
  shows "\<exists>s'. for_each xs body s = Inr s' \<and> I s'"
  using assms
proof (induction xs arbitrary: s)
  case Nil
  then show ?case by simp
next
  case (Cons x xs)
  from Cons.prems(2) [of x s] Cons.prems(1) obtain t where t: "body x s = Inr t" "I t"
    by auto
  from Cons.IH [OF t(2)] Cons.prems(2) obtain s' where "for_each xs body t = Inr s'" "I s'"
    by (metis list.set_intros(2))
  with t show ?case by simp
qed

lemma py_index_nat [simp]: "i < n \<Longrightarrow> py_index n (int i) = Inr i"
  by (simp add: py_index_def)

lemma square_nth: "square n m \<Longrightarrow> i < n \<Longrightarrow> length (m ! i) = n"
  by (simp add: square_def)

lemma get_cell_nat:
  "square n m \<Longrightarrow> i < n \<Longrightarrow> j < n \<Longrightarrow> get_cell m (int i) (int j) = Inr (m ! i ! j)"
  by (simp add: get_cell_def square_def)

lemma set_cell_nat:
  "square n m \<Longrightarrow> i < n \<Longrightarrow> j < n \<Longrightarrow>
   set_cell (int i) (int j) x m = Inr (m[i := (m ! i)[j := x]])"
  by (simp add: set_cell_def square_def)

lemma square_update:
  "square n m \<Longrightarrow> i < n \<Longrightarrow> square n (m[i := (m ! i)[j := x]])"
  by (auto simp: square_def dest!: set_update_subset_insert [THEN subsetD])

lemma nth_update_cell:
  "square n m \<Longrightarrow> i < n \<Longrightarrow> j < n \<Longrightarrow> a < n \<Longrightarrow> b < n \<Longrightarrow>
   m[i := (m ! i)[j := x]] ! a ! b = (if a = i \<and> b = j then x else m ! a ! b)"
  by (auto simp: square_def nth_list_update)

lemma relax_cell_nat:
  assumes "square n m" "k < n" "i < n" "j < n"
  shows "\<exists>m'. relax_cell_exact k i j m = Inr m' \<and> square n m' \<and>
           (\<forall>a<n. \<forall>b<n. m' ! a ! b =
              (if a = i \<and> b = j then min (m ! i ! j) (m ! i ! k + m ! k ! j) else m ! a ! b))"
  using assms
  by (simp add: relax_cell_exact_def get_cell_nat set_cell_nat square_update nth_update_cell)

section \<open>Path weights and the bounds of Floyd-Warshall\<close>

lemma path_weight_append:
  "path_weight W (p @ x # q) = path_weight W (p @ [x]) + path_weight W (x # q)"
proof (induction p)
  case Nil
  then show ?case by simp
next
  case (Cons a p)
  then show ?case by (cases p) (simp_all add: add.assoc)
qed

lemma path_weight_split:
  "path_weight W (a # p @ k # q @ [b]) = path_weight W (a # p @ [k]) + path_weight W (k # q @ [b])"
  using path_weight_append [of W "a # p" k "q @ [b]"] by simp

lemma dist_add_infty [simp]: "x + Infty = Infty" "Infty + x = Infty"
  by (cases x; simp)+

lemma dist_le_infty [simp]: "x \<le> Infty"
  by (cases x) simp_all

lemma dist_zero_le_add: "(0::dist) \<le> c \<Longrightarrow> x \<le> c + x"
  using add_right_mono [of 0 c x] by simp

lemma lowerb_mono: "x' \<le> x \<Longrightarrow> lowerb W K a b x \<Longrightarrow> lowerb W K a b x'"
  by (auto simp: lowerb_def intro: order_trans)

lemma lowerb_through:
  assumes cyc: "nonneg_cycles W n" and k: "k < n"
    and z: "lowerb W k k j z"
  shows "set p \<subseteq> {..<Suc k} \<Longrightarrow> z \<le> path_weight W (k # p @ [j])"
proof (induction "length p" arbitrary: p rule: less_induct)
  case less
  show ?case
  proof (cases "k \<in> set p")
    case False
    with less.prems have "set p \<subseteq> {..<k}"
      by (auto simp: less_Suc_eq)
    with z show ?thesis by (simp add: lowerb_def)
  next
    case True
    then obtain q r where p: "p = q @ k # r"
      by (meson split_list)
    from less.prems p k have q: "set q \<subseteq> {..<n}" and r: "set r \<subseteq> {..<Suc k}"
      by auto
    have "0 \<le> path_weight W (k # q @ [k])"
      using cyc k q by (simp add: nonneg_cycles_def)
    moreover have "z \<le> path_weight W (k # r @ [j])"
      using less.hyps [of r] r p by simp
    ultimately have "z \<le> path_weight W (k # q @ [k]) + path_weight W (k # r @ [j])"
      by (meson dist_zero_le_add order_trans)
    then show ?thesis
      by (simp add: p path_weight_split)
  qed
qed

lemma lowerb_step:
  assumes cyc: "nonneg_cycles W n" and k: "k < n"
    and x: "lowerb W k i j x" and y: "lowerb W k i k y" and z: "lowerb W k k j z"
  shows "lowerb W (Suc k) i j (min x (y + z))"
  unfolding lowerb_def
proof (intro allI impI)
  fix p assume p: "set p \<subseteq> {..<Suc k}"
  show "min x (y + z) \<le> path_weight W (i # p @ [j])"
  proof (cases "k \<in> set p")
    case False
    with p have "set p \<subseteq> {..<k}"
      by (auto simp: less_Suc_eq)
    with x have "x \<le> path_weight W (i # p @ [j])"
      by (simp add: lowerb_def)
    then show ?thesis
      by (simp add: min_le_iff_disj)
  next
    case True
    then obtain q r where qr: "p = q @ k # r" "k \<notin> set q"
      by (meson split_list_first)
    with p have "set q \<subseteq> {..<k}" "set r \<subseteq> {..<Suc k}"
      by (auto simp: less_Suc_eq)
    then have "y \<le> path_weight W (i # q @ [k])" "z \<le> path_weight W (k # r @ [j])"
      using y lowerb_through [OF cyc k z] by (simp_all add: lowerb_def)
    then have "y + z \<le> path_weight W (i # q @ [k]) + path_weight W (k # r @ [j])"
      by (rule add_mono)
    then show ?thesis
      by (simp add: qr path_weight_split min_le_iff_disj)
  qed
qed

lemma upperb_step:
  assumes k: "k < n"
    and x: "upperb W n i j x" and y: "upperb W n i k y" and z: "upperb W n k j z"
  shows "upperb W n i j (min x (y + z))"
proof (cases "x \<le> y + z")
  case True
  with x show ?thesis by (simp add: min_def)
next
  case False
  then have "y + z \<noteq> Infty" by auto
  then have "y \<noteq> Infty" "z \<noteq> Infty" by auto
  with y z obtain q r where q: "set q \<subseteq> {..<n}" "y = path_weight W (i # q @ [k])"
    and r: "set r \<subseteq> {..<n}" "z = path_weight W (k # r @ [j])"
    by (auto simp: upperb_def)
  then have "set (q @ k # r) \<subseteq> {..<n}" "y + z = path_weight W (i # (q @ k # r) @ [j])"
    using k by (simp_all add: path_weight_split)
  then have "upperb W n i j (y + z)"
    unfolding upperb_def by blast
  with False show ?thesis by (simp add: min_def)
qed

section \<open>The relaxation loops of Floyd-Warshall\<close>

lemma upperb_mono: "K \<le> K' \<Longrightarrow> upperb W K a b x \<Longrightarrow> upperb W K' a b x"
proof -
  assume le: "K \<le> K'" and ub: "upperb W K a b x"
  have "set p \<subseteq> {..<K'}" if "set p \<subseteq> {..<K}" for p :: "nat list"
    using that le by auto
  with ub show ?thesis
    unfolding upperb_def by blast
qed

lemma fw_cell_step:
  assumes cyc: "nonneg_cycles W n" and k: "k < n" and i: "i < n" and j: "j < n"
    and mid: "fw_mid W n k i j m"
  shows "\<exists>m'. relax_cell_exact k i j m = Inr m' \<and> fw_mid W n k i (Suc j) m'"
proof -
  from mid have sq: "square n m"
    and ub: "\<And>a b. a < n \<Longrightarrow> b < n \<Longrightarrow> upperb W (Suc k) a b (m ! a ! b)"
    and lb: "\<And>a b. a < n \<Longrightarrow> b < n \<Longrightarrow> lowerb W k a b (m ! a ! b)"
    by (simp_all add: fw_mid_def)
  from mid have dn: "\<And>a b. a < n \<Longrightarrow> b < n \<Longrightarrow> a < i \<or> (a = i \<and> b < j) \<Longrightarrow>
                 lowerb W (Suc k) a b (m ! a ! b)"
    unfolding fw_mid_def by blast
  from mid have todo: "\<And>a b. a < n \<Longrightarrow> b < n \<Longrightarrow> \<not> (a < i \<or> (a = i \<and> b < j)) \<Longrightarrow>
                 upperb W k a b (m ! a ! b)"
    unfolding fw_mid_def by blast
  let ?x = "min (m ! i ! j) (m ! i ! k + m ! k ! j)"
  from relax_cell_nat [OF sq k i j] obtain m' where m': "relax_cell_exact k i j m = Inr m'"
    and sq': "square n m'"
    and cells: "\<And>a b. a < n \<Longrightarrow> b < n \<Longrightarrow>
                  m' ! a ! b = (if a = i \<and> b = j then ?x else m ! a ! b)"
    by blast
  have new_ub: "upperb W (Suc k) i j ?x"
    using upperb_step [of k "Suc k"] ub i j k by blast
  have new_lb: "lowerb W (Suc k) i j ?x"
    using lowerb_step [OF cyc k] lb i j k by blast
  have new_lbk: "lowerb W k i j ?x"
    using lowerb_mono [OF _ lb [OF i j], of ?x] by simp
  have "upperb W (Suc k) a b (m' ! a ! b) \<and> lowerb W k a b (m' ! a ! b)" if "a < n" "b < n" for a b
    using that ub lb new_ub new_lbk by (simp add: cells)
  moreover have "lowerb W (Suc k) a b (m' ! a ! b)"
    if "a < n" "b < n" "a < i \<or> (a = i \<and> b < Suc j)" for a b
  proof (cases "a = i \<and> b = j")
    case True
    with that new_lb show ?thesis by (simp add: cells)
  next
    case False
    with that have "a < i \<or> (a = i \<and> b < j)" by auto
    with that have "lowerb W (Suc k) a b (m ! a ! b)" by (simp add: dn)
    moreover from that False have "m' ! a ! b = m ! a ! b" by (auto simp: cells)
    ultimately show ?thesis by simp
  qed
  moreover have "upperb W k a b (m' ! a ! b)"
    if "a < n" "b < n" "\<not> (a < i \<or> (a = i \<and> b < Suc j))" for a b
  proof -
    from that have ne: "\<not> (a = i \<and> b = j)" and nd: "\<not> (a < i \<or> (a = i \<and> b < j))"
      by auto
    from that ne have "m' ! a ! b = m ! a ! b"
      using cells [of a b] by presburger
    moreover have "upperb W k a b (m ! a ! b)"
      using that(1,2) nd by (rule todo)
    ultimately show ?thesis by simp
  qed
  ultimately have "fw_mid W n k i (Suc j) m'"
    using sq' unfolding fw_mid_def by blast
  with m' show ?thesis by blast
qed

lemma fw_row:
  assumes cyc: "nonneg_cycles W n" and k: "k < n" and i: "i < n"
    and mid: "fw_mid W n k i 0 m"
  shows "\<exists>m'. for_each [0 ..< n] (\<lambda>j. relax_cell_exact k i j) m = Inr m' \<and> fw_mid W n k (Suc i) 0 m'"
proof -
  have "\<exists>m'. for_each [0 ..< n] (\<lambda>j. relax_cell_exact k i j) m = Inr m' \<and> fw_mid W n k i n m'"
    by (rule for_each_upt_rule [where I = "fw_mid W n k i"]) (use mid fw_cell_step [OF cyc k i] in auto)
  moreover have "fw_mid W n k (Suc i) 0 m'" if "fw_mid W n k i n m'" for m'
    using that by (auto simp: fw_mid_def less_Suc_eq)
  ultimately show ?thesis by blast
qed

lemma fw_iteration:
  assumes cyc: "nonneg_cycles W n" and k: "k < n"
    and mid: "fw_mid W n k 0 0 m"
  shows "\<exists>m'. for_each [0 ..< n] (\<lambda>i. for_each [0 ..< n] (\<lambda>j. relax_cell_exact k i j)) m = Inr m' \<and>
           fw_mid W n (Suc k) 0 0 m'"
proof -
  have "\<exists>m'. for_each [0 ..< n] (\<lambda>i. for_each [0 ..< n] (\<lambda>j. relax_cell_exact k i j)) m = Inr m' \<and>
          fw_mid W n k n 0 m'"
    by (rule for_each_upt_rule [where I = "\<lambda>i. fw_mid W n k i 0"]) (use mid fw_row [OF cyc k] in auto)
  moreover have "fw_mid W n (Suc k) 0 0 m'" if "fw_mid W n k n 0 m'" for m'
    using that by (auto simp: fw_mid_def intro: upperb_mono [of "Suc k" "Suc (Suc k)"])
  ultimately show ?thesis by blast
qed

lemma fw_loops:
  assumes cyc: "nonneg_cycles W n" and mid: "fw_mid W n 0 0 0 m"
  shows "\<exists>m'. for_each [0 ..< n] (\<lambda>k. for_each [0 ..< n] (\<lambda>i.
                 for_each [0 ..< n] (\<lambda>j. relax_cell_exact k i j))) m = Inr m' \<and>
           fw_mid W n n 0 0 m'"
  by (rule for_each_upt_rule [where I = "\<lambda>k. fw_mid W n k 0 0"]) (use mid fw_iteration [OF cyc] in auto)

section \<open>The relaxation passes of Bellman-Ford\<close>

lemma wt_le: "(u, v, w) \<in> set E \<Longrightarrow> wt E u v \<le> Fin w"
  by (induction E u v rule: wt.induct) (auto simp: min_le_iff_disj)

lemma wt_mem: "wt E a b = Fin w \<Longrightarrow> (a, b, w) \<in> set E"
  by (induction E a b rule: wt.induct) (auto simp: min_def split: if_splits)

lemma path_weight_snoc:
  "p \<noteq> [] \<Longrightarrow> path_weight W (p @ [v]) = path_weight W p + W (last p) v"
  by (induction W p rule: path_weight.induct) (simp_all add: add.assoc)

lemma val_upd [simp]: "val (d(v \<mapsto> x)) a = (if a = v then x else val d a)"
  by (simp add: val_def)

lemma relax_in_dom:
  assumes "u \<in> dom d" "v \<in> dom d"
  shows "relax_exact (u, v, w) d =
           Inr (if val d u + Fin w < val d v then d(v \<mapsto> val d u + Fin w) else d)"
  using assms by (auto simp: relax_exact_def lookup_def val_def)

lemma check_in_dom:
  assumes "u \<in> dom d" "v \<in> dom d"
  shows "check_exact (u, v, w) d =
           (if val d u + Fin w < val d v then Inl NegativeCycleError else Inr d)"
  using assms by (auto simp: check_exact_def lookup_def val_def)

lemma reached_relax:
  assumes r: "reached E s d" and e: "(u, v, w) \<in> set E"
    and less: "val d u + Fin w < val d v"
  shows "reached E s (d(v \<mapsto> val d u + Fin w))"
proof -
  from less have "val d u \<noteq> Infty" by auto
  with r obtain p where p: "walk_from s p" "last p = u" "path_weight (wt E) p \<le> val d u"
    unfolding reached_def by blast
  have "path_weight (wt E) (p @ [v]) = path_weight (wt E) p + wt E u v"
    using p by (simp add: path_weight_snoc walk_from_def)
  also have "\<dots> \<le> val d u + Fin w"
    using p(3) wt_le [OF e] by (rule add_mono)
  finally have "walk_from s (p @ [v]) \<and> last (p @ [v]) = v \<and>
      path_weight (wt E) (p @ [v]) \<le> val d u + Fin w"
    using p(1) by (simp add: walk_from_def)
  then have "\<exists>q. walk_from s q \<and> last q = v \<and> path_weight (wt E) q \<le> val d u + Fin w"
    by blast
  with r show ?thesis
    unfolding reached_def by (simp del: fun_upd_apply)
qed

lemma relax_pass:
  assumes "set es \<subseteq> set E" "closed_edges E (dom d)" "reached E s d"
  shows "\<exists>d'. for_each es relax_exact d = Inr d' \<and> dom d' = dom d \<and> reached E s d' \<and>
           (\<forall>x. val d' x \<le> val d x) \<and>
           (\<forall>(u, v, w) \<in> set es. val d' v \<le> val d u + Fin w)"
  using assms
proof (induction es arbitrary: d)
  case Nil
  then show ?case by simp
next
  case (Cons e es)
  obtain u v w where e: "e = (u, v, w)" by (cases e)
  with Cons.prems have mem: "(u, v, w) \<in> set E" and uv: "u \<in> dom d" "v \<in> dom d"
    by (auto simp: closed_edges_def)
  define d1 where "d1 = (if val d u + Fin w < val d v then d(v \<mapsto> val d u + Fin w) else d)"
  have step: "relax_exact e d = Inr d1"
    using relax_in_dom [OF uv] by (simp add: e d1_def)
  have dom1: "dom d1 = dom d"
    using uv by (auto simp: d1_def)
  have r1: "reached E s d1"
    using Cons.prems(3) reached_relax [OF _ mem] by (simp add: d1_def)
  have mono1: "val d1 x \<le> val d x" for x
    by (auto simp: d1_def)
  have edge1: "val d1 v \<le> val d u + Fin w"
    by (auto simp: d1_def)
  from Cons.IH [of d1] Cons.prems dom1 r1
  obtain d' where d': "for_each es relax_exact d1 = Inr d'" "dom d' = dom d1" "reached E s d'"
    and mono: "\<And>x. val d' x \<le> val d1 x"
    and edge0: "\<forall>(a, b, c) \<in> set es. val d' b \<le> val d1 a + Fin c"
    by auto
  have edge: "val d' b \<le> val d1 a + Fin c" if "(a, b, c) \<in> set es" for a b c
    using edge0 that by auto
  have "val d' x \<le> val d x" for x
    using mono [of x] mono1 [of x] by (rule order_trans)
  moreover have "val d' b \<le> val d a + Fin c" if "(a, b, c) \<in> set (e # es)" for a b c
  proof (cases "(a, b, c) = e")
    case True
    then show ?thesis
      using mono [of v] edge1 by (auto simp: e intro: order_trans)
  next
    case False
    with that have "val d' b \<le> val d1 a + Fin c" by (simp add: edge)
    also have "\<dots> \<le> val d a + Fin c" by (rule add_right_mono) (rule mono1)
    finally show ?thesis .
  qed
  ultimately show ?case
    using step d' dom1 by auto
qed

lemma dist_add_finite: "(x::dist) + y \<noteq> Infty \<Longrightarrow> x \<noteq> Infty \<and> y \<noteq> Infty"
  by (cases x; cases y) simp_all

lemma dist_le_finite: "(x::dist) \<le> y \<Longrightarrow> y \<noteq> Infty \<Longrightarrow> x \<noteq> Infty"
  by (cases x; cases y) simp_all

lemma bounded_pass:
  assumes b: "bounded E s i d"
    and mono: "\<And>x. val d' x \<le> val d x"
    and edge: "\<And>u v w. (u, v, w) \<in> set E \<Longrightarrow> val d' v \<le> val d u + Fin w"
  shows "bounded E s (Suc i) d'"
  unfolding bounded_def
proof (intro allI impI)
  fix p assume p: "walk_from s p \<and> length p \<le> Suc (Suc i)"
  show "val d' (last p) \<le> path_weight (wt E) p"
  proof (cases "length p \<le> Suc i")
    case True
    with p b have "val d (last p) \<le> path_weight (wt E) p"
      by (simp add: bounded_def)
    with mono [of "last p"] show ?thesis by (rule order_trans)
  next
    case False
    with p have len: "length p = Suc (Suc i)" and ne: "p \<noteq> []"
      by (auto simp: walk_from_def)
    then obtain q v where q: "p = q @ [v]"
      by (meson rev_exhaust)
    with len p have wq: "walk_from s q" "length q \<le> Suc i"
      by (auto simp: walk_from_def hd_append split: if_splits)
    then have bq: "val d (last q) \<le> path_weight (wt E) q"
      using b by (simp add: bounded_def)
    have pw: "path_weight (wt E) p = path_weight (wt E) q + wt E (last q) v"
      using wq(1) by (simp add: q path_weight_snoc walk_from_def)
    show ?thesis
    proof (cases "wt E (last q) v")
      case Infty
      then show ?thesis by (simp add: pw)
    next
      case (Fin w)
      then have "val d' v \<le> val d (last q) + Fin w"
        by (intro edge wt_mem)
      also have "\<dots> \<le> path_weight (wt E) q + Fin w"
        using bq by (rule add_right_mono)
      finally show ?thesis by (simp add: pw Fin) (simp add: q)
    qed
  qed
qed

lemma relax_dom: "for_each es relax_exact d = Inr d' \<Longrightarrow> dom d' = dom d"
proof (induction es arbitrary: d)
  case Nil
  then show ?case by simp
next
  case (Cons e es)
  then obtain d1 where d1: "relax_exact e d = Inr d1" "for_each es relax_exact d1 = Inr d'"
    by (auto split: sum.splits)
  from d1(1) have "dom d1 = dom d"
    by (cases e) (auto simp: relax_exact_def lookup_def split: option.splits if_splits)
  with Cons.IH [OF d1(2)] show ?case by simp
qed

lemma passes_dom:
  "for_each ks (\<lambda>_. for_each es relax_exact) d = Inr d' \<Longrightarrow> dom d' = dom d"
proof (induction ks arbitrary: d)
  case Nil
  then show ?case by simp
next
  case (Cons k ks)
  then obtain d1 where d1: "for_each es relax_exact d = Inr d1"
      "for_each ks (\<lambda>_. for_each es relax_exact) d1 = Inr d'"
    by (auto split: sum.splits)
  with Cons.IH [OF d1(2)] relax_dom [OF d1(1)] show ?case by simp
qed

lemma check_closed:
  "for_each es check_exact d = Inr d' \<Longrightarrow> closed_edges es (dom d) \<and> d' = d"
proof (induction es)
  case Nil
  then show ?case by (simp add: closed_edges_def)
next
  case (Cons e es)
  obtain u v w where e: "e = (u, v, w)" by (cases e)
  from Cons.prems obtain d1 where d1: "check_exact e d = Inr d1" "for_each es check_exact d1 = Inr d'"
    by (auto split: sum.splits)
  from d1(1) have "d1 = d" "u \<in> dom d" "v \<in> dom d"
    by (auto simp: e check_exact_def lookup_def split: option.splits if_splits)
  with d1(2) Cons.IH show ?case
    by (simp add: closed_edges_def e)
qed

lemma check_scan:
  assumes "closed_edges es (dom d)"
  shows "for_each es check_exact d =
           (if \<exists>(u, v, w) \<in> set es. val d u + Fin w < val d v
            then Inl NegativeCycleError else Inr d)"
  using assms
proof (induction es)
  case Nil
  then show ?case by simp
next
  case (Cons e es)
  obtain u v w where e: "e = (u, v, w)" by (cases e)
  with Cons.prems have uv: "u \<in> dom d" "v \<in> dom d" and cl: "closed_edges es (dom d)"
    by (auto simp: closed_edges_def)
  show ?case
    using Cons.IH [OF cl] by (simp add: e check_in_dom [OF uv])
qed

lemma feasible_walk:
  assumes feas: "\<And>u v w. (u, v, w) \<in> set E \<Longrightarrow> val d v \<le> val d u + Fin w"
  shows "p \<noteq> [] \<Longrightarrow> val d (last p) \<le> val d (hd p) + path_weight (wt E) p"
proof (induction p rule: rev_nonempty_induct)
  case (single x)
  then show ?case by simp
next
  case (snoc v p)
  have pw: "path_weight (wt E) (p @ [v]) = path_weight (wt E) p + wt E (last p) v"
    using snoc.hyps by (simp add: path_weight_snoc)
  show ?case
  proof (cases "wt E (last p) v")
    case Infty
    then show ?thesis by (simp add: pw)
  next
    case (Fin w)
    then have "val d v \<le> val d (last p) + Fin w"
      by (intro feas wt_mem)
    also have "\<dots> \<le> (val d (hd p) + path_weight (wt E) p) + Fin w"
      using snoc.IH by (rule add_right_mono)
    finally show ?thesis
      using snoc.hyps by (simp add: pw Fin add.assoc)
  qed
qed

section \<open>Shortening walks\<close>

lemma wt_closed:
  "closed_edges E V \<Longrightarrow> wt E a b \<noteq> Infty \<Longrightarrow> a \<in> V \<and> b \<in> V"
  by (cases "wt E a b") (auto simp: closed_edges_def dest!: wt_mem)

lemma path_in_nodes:
  assumes cl: "closed_edges E V"
  shows "path_weight (wt E) p \<noteq> Infty \<Longrightarrow> p \<noteq> [] \<Longrightarrow> hd p \<in> V \<Longrightarrow> set p \<subseteq> V"
proof (induction p rule: induct_list012)
  case (3 x y zs)
  from "3.prems"(1) have "wt E x y \<noteq> Infty" "path_weight (wt E) (y # zs) \<noteq> Infty"
    by (auto dest: dist_add_finite)
  with wt_closed [OF cl] "3.IH"(2) "3.prems" show ?case by auto
qed simp_all

lemma shorten_walk:
  assumes fin: "finite V" and cl: "closed_edges E V" and s: "s \<in> V"
    and cyc: "\<And>q ys. walk_from s q \<Longrightarrow> path_weight (wt E) q \<noteq> Infty \<Longrightarrow>
                0 \<le> path_weight (wt E) (last q # ys @ [last q])"
  shows "walk_from s p \<Longrightarrow> path_weight (wt E) p \<noteq> Infty \<Longrightarrow>
         \<exists>p'. walk_from s p' \<and> last p' = last p \<and> length p' \<le> card V \<and>
              path_weight (wt E) p' \<le> path_weight (wt E) p"
proof (induction "length p" arbitrary: p rule: less_induct)
  case less
  show ?case
  proof (cases "length p \<le> card V")
    case True
    with less.prems show ?thesis by blast
  next
    case False
    have sub: "set p \<subseteq> V"
      using path_in_nodes [OF cl less.prems(2)] less.prems(1) s by (simp add: walk_from_def)
    have "\<not> distinct p"
    proof
      assume "distinct p"
      then have "length p = card (set p)" by (simp add: distinct_card)
      also have "\<dots> \<le> card V" using fin sub by (rule card_mono)
      finally show False using False by simp
    qed
    then obtain xs ys zs y where p: "p = xs @ [y] @ ys @ [y] @ zs"
      using not_distinct_decomp by blast
    let ?A = "path_weight (wt E) (xs @ [y])"
    let ?B = "path_weight (wt E) (y # ys @ [y])"
    let ?C = "path_weight (wt E) (y # zs)"
    have split: "path_weight (wt E) p = ?A + (?B + ?C)"
      using path_weight_append [of "wt E" xs y "ys @ y # zs"]
        path_weight_append [of "wt E" "y # ys" y zs]
      by (simp add: p)
    with less.prems(2) have A: "?A \<noteq> Infty"
      by (auto dest: dist_add_finite)
    have wq: "walk_from s (xs @ [y])"
      using less.prems(1) by (auto simp: p walk_from_def hd_append)
    have "0 \<le> ?B"
      using cyc [OF wq A] by simp
    then have "?C \<le> ?B + ?C"
      by (rule dist_zero_le_add)
    then have le: "?A + ?C \<le> path_weight (wt E) p"
      unfolding split by (rule add_left_mono)
    let ?p' = "xs @ y # zs"
    have pw': "path_weight (wt E) ?p' = ?A + ?C"
      by (rule path_weight_append)
    have w': "walk_from s ?p'" "last ?p' = last p" "length ?p' < length p"
      using less.prems(1) by (auto simp: p walk_from_def hd_append)
    have "path_weight (wt E) ?p' \<noteq> Infty"
      using le less.prems(2) unfolding pw' by (rule dist_le_finite)
    from less.hyps [OF w'(3) w'(1) this] obtain p'' where
      "walk_from s p''" "last p'' = last ?p'" "length p'' \<le> card V"
      "path_weight (wt E) p'' \<le> path_weight (wt E) ?p'"
      by blast
    with le w'(2) pw' show ?thesis
      by (metis order_trans)
  qed
qed

lemma dom_init_distances: "dom (init_distances g s) = insert s (set (nodes g))"
  by (auto simp: init_distances_def dom_map_of_conv_image_fst image_image)

lemma val_init_distances: "val (init_distances g s) v = (if v = s then 0 else Infty)"
  by (auto simp: init_distances_def val_def zero_dist_def map_of_map_restrict restrict_map_def
      split: option.splits)

lemma reached_init: "reached E s (init_distances g s)"
  unfolding reached_def
proof
  fix v
  have "walk_from s [s] \<and> last [s] = s \<and> path_weight (wt E) [s] \<le> 0"
    by (simp add: walk_from_def)
  then show "val (init_distances g s) v = Infty \<or>
      (\<exists>p. walk_from s p \<and> last p = v \<and> path_weight (wt E) p \<le> val (init_distances g s) v)"
    by (auto simp: val_init_distances)
qed

lemma bounded_init: "bounded E s 0 (init_distances g s)"
  unfolding bounded_def
proof (intro allI impI)
  fix p assume "walk_from s p \<and> length p \<le> Suc 0"
  then have "p = [s]"
    by (cases p) (auto simp: walk_from_def)
  then show "val (init_distances g s) (last p) \<le> path_weight (wt E) p"
    by (simp add: val_init_distances)
qed

lemma bf_pass_inv:
  assumes cl: "closed_edges E D" and inv: "bf_inv E s D i d"
  shows "\<exists>d'. for_each E relax_exact d = Inr d' \<and> bf_inv E s D (Suc i) d'"
proof -
  from inv have dom: "dom d = D" and r: "reached E s d" and b: "bounded E s i d"
    and z: "val d s \<le> 0"
    by (simp_all add: bf_inv_def)
  from relax_pass [of E E d s] cl dom r
  obtain d' where d': "for_each E relax_exact d = Inr d'" "dom d' = dom d" "reached E s d'"
    and mono: "\<And>x. val d' x \<le> val d x"
    and edge0: "\<forall>(u, v, w) \<in> set E. val d' v \<le> val d u + Fin w"
    by auto
  have edge: "val d' v \<le> val d u + Fin w" if "(u, v, w) \<in> set E" for u v w
    using edge0 that by auto
  have "bounded E s (Suc i) d'"
    using b mono edge by (rule bounded_pass)
  moreover have "val d' s \<le> 0"
    using mono [of s] z by (rule order_trans)
  ultimately show ?thesis
    using d' dom by (auto simp: bf_inv_def)
qed

lemma bf_passes_inv:
  assumes cl: "closed_edges (edges g) (insert s (set (nodes g)))"
  shows "\<exists>d. for_each [0 ..< k] (\<lambda>_. for_each (edges g) relax_exact) (init_distances g s) = Inr d \<and>
           bf_inv (edges g) s (insert s (set (nodes g))) k d"
proof (rule for_each_upt_rule [where I = "bf_inv (edges g) s (insert s (set (nodes g)))"])
  show "bf_inv (edges g) s (insert s (set (nodes g))) 0 (init_distances g s)"
    by (simp add: bf_inv_def dom_init_distances reached_init bounded_init val_init_distances)
next
  fix j t
  assume "bf_inv (edges g) s (insert s (set (nodes g))) j t"
  with cl show "\<exists>t'. for_each (edges g) relax_exact t = Inr t' \<and>
      bf_inv (edges g) s (insert s (set (nodes g))) (Suc j) t'"
    by (rule bf_pass_inv)
qed

section \<open>The initial matrix\<close>

lemma square_replicate: "square n (replicate n (replicate n x))"
  by (simp add: square_def)

lemma py_index_int: "0 \<le> u \<Longrightarrow> u < int n \<Longrightarrow> py_index n u = Inr (nat u)"
  by (simp add: py_index_def)

lemma set_cell_int:
  assumes "square n m" "0 \<le> u" "u < int n" "0 \<le> v" "v < int n"
  shows "set_cell u v x m = Inr (m[nat u := (m ! nat u)[nat v := x]])"
  using assms by (simp add: set_cell_def py_index_int square_def)

lemma init_edges_total:
  assumes "closed_edges es {0 ..< int n}" "square n m"
  shows "\<exists>m'. for_each es (\<lambda>(u, v, weight). set_cell u v (Fin weight)) m = Inr m' \<and> square n m'"
proof (rule for_each_list_rule [where I = "square n"])
  show "square n m" by fact
next
  fix e t assume e: "e \<in> set es" and t: "square n t"
  obtain u v w where uvw: "e = (u, v, w)" by (cases e)
  with e assms(1) have r: "0 \<le> u" "u < int n" "0 \<le> v" "v < int n"
    by (auto simp: closed_edges_def)
  then have "nat u < n" by simp
  with t r show "\<exists>t'. (case e of (u, v, weight) \<Rightarrow> set_cell u v (Fin weight)) t = Inr t' \<and> square n t'"
    by (simp add: uvw set_cell_int square_update)
qed

lemma wt_distinct_head:
  assumes "distinct (map (\<lambda>(u, v, w). (u, v)) ((u, v, w) # es))"
  shows "wt es u v = Infty"
proof (cases "wt es u v")
  case (Fin x)
  then have "(u, v, x) \<in> set es" by (rule wt_mem)
  then have "(u, v) \<in> set (map (\<lambda>(u, v, w). (u, v)) es)" by force
  with assms show ?thesis by simp
qed simp

lemma wt_distinct_Cons:
  assumes "distinct (map (\<lambda>(u, v, w). (u, v)) ((u, v, w) # es))"
  shows "wt ((u, v, w) # es) a b = (if u = a \<and> v = b then Fin w else wt es a b)"
  using wt_distinct_head [OF assms] by auto

lemma init_edges_cells:
  assumes "closed_edges es {0 ..< int n}" "square n m"
    and "distinct (map (\<lambda>(u, v, w). (u, v)) es)"
    and "for_each es (\<lambda>(u, v, weight). set_cell u v (Fin weight)) m = Inr m'"
    and "a < n" "b < n"
  shows "m' ! a ! b = (if wt es (int a) (int b) = Infty then m ! a ! b else wt es (int a) (int b))"
  using assms(1-4)
proof (induction es arbitrary: m)
  case Nil
  then show ?case by simp
next
  case (Cons e es)
  obtain u v w where e: "e = (u, v, w)" by (cases e)
  with Cons.prems(1) have r: "0 \<le> u" "u < int n" "0 \<le> v" "v < int n"
    and cl: "closed_edges es {0 ..< int n}"
    by (auto simp: closed_edges_def)
  define m1 where "m1 = m[nat u := (m ! nat u)[nat v := Fin w]]"
  have step: "set_cell u v (Fin w) m = Inr m1"
    using Cons.prems(2) r by (simp add: set_cell_int m1_def)
  have sq1: "square n m1"
    using Cons.prems(2) r unfolding m1_def by (intro square_update) simp_all
  from Cons.prems(4) step have rest: "for_each es (\<lambda>(u, v, weight). set_cell u v (Fin weight)) m1 = Inr m'"
    by (simp add: e)
  from Cons.prems(3) have dist: "distinct (map (\<lambda>(u, v, w). (u, v)) es)"
    by simp
  have IH: "m' ! a ! b = (if wt es (int a) (int b) = Infty then m1 ! a ! b else wt es (int a) (int b))"
    by (rule Cons.IH [OF cl sq1 dist rest])
  have m1_cell: "m1 ! a ! b = (if a = nat u \<and> b = nat v then Fin w else m ! a ! b)"
    unfolding m1_def using Cons.prems(2) r assms(5,6) by (intro nth_update_cell) simp_all
  have weq: "wt (e # es) (int a) (int b) = (if u = int a \<and> v = int b then Fin w else wt es (int a) (int b))"
    using Cons.prems(3) unfolding e by (rule wt_distinct_Cons)
  have match: "(a = nat u \<and> b = nat v) = (u = int a \<and> v = int b)"
    using r by auto
  show ?case
  proof (cases "u = int a \<and> v = int b")
    case True
    then have "wt es (int a) (int b) = Infty"
      using wt_distinct_head [OF Cons.prems(3) [unfolded e]] by simp
    with True show ?thesis
      using IH m1_cell match weq by simp
  next
    case False
    then show ?thesis
      using IH m1_cell match weq by auto
  qed
qed

lemma init_diag:
  assumes "square n m"
  shows "\<exists>m'. for_each [0 ..< n] (\<lambda>i. set_cell (int i) (int i) (Fin 0)) m = Inr m' \<and> square n m' \<and>
           (\<forall>a<n. \<forall>b<n. m' ! a ! b = (if a = b then Fin 0 else m ! a ! b))"
proof -
  let ?I = "\<lambda>k t. square n t \<and> (\<forall>a<n. \<forall>b<n. t ! a ! b = (if a = b \<and> a < k then Fin 0 else m ! a ! b))"
  have "\<exists>m'. for_each [0 ..< n] (\<lambda>i. set_cell (int i) (int i) (Fin 0)) m = Inr m' \<and> ?I n m'"
  proof (rule for_each_upt_rule [where I = ?I])
    show "?I 0 m" using assms by simp
  next
    fix j t assume j: "j < n" and t: "?I j t"
    then have "square n t" by simp
    then have "set_cell (int j) (int j) (Fin 0) t = Inr (t[j := (t ! j)[j := Fin 0]])"
      using j by (simp add: set_cell_nat)
    moreover have "?I (Suc j) (t[j := (t ! j)[j := Fin 0]])"
      using j t by (auto simp: square_update nth_update_cell less_Suc_eq)
    ultimately show "\<exists>t'. set_cell (int j) (int j) (Fin 0) t = Inr t' \<and> ?I (Suc j) t'"
      by blast
  qed
  then show ?thesis by auto
qed

section \<open>From the graph to the matrix\<close>

lemma step_weight_wt0: "step_weight E a b = wt0 E (int a) (int b)"
  by (simp add: step_weight_def wt0_def)

lemma path_weight_map:
  "path_weight W (map f p) = path_weight (\<lambda>a b. W (f a) (f b)) p"
  by (induction p rule: induct_list012) simp_all

lemma path_weight_step_weight:
  "path_weight (step_weight E) p = path_weight (wt0 E) (map int p)"
  unfolding path_weight_map by (simp add: step_weight_wt0 [abs_def])

lemma path_weight_remdups_adj:
  "path_weight (wt0 E) (remdups_adj p) = path_weight (wt0 E) p"
proof (induction p rule: remdups_adj.induct)
  case (3 x y xs)
  show ?case
  proof (cases "x = y")
    case True
    with 3 show ?thesis by (simp add: wt0_def)
  next
    case False
    obtain r where r: "remdups_adj (y # xs) = y # r"
      by (cases "remdups_adj (y # xs)") (auto dest: arg_cong [where f = hd])
    with 3 False show ?thesis by simp
  qed
qed simp_all

lemma path_weight_distinct_adj:
  "distinct_adj p \<Longrightarrow> path_weight (wt0 E) p = path_weight (wt E) p"
  by (induction p rule: induct_list012) (simp_all add: wt0_def)

lemma closed_walk_nonneg:
  assumes "\<not> has_negative_cycle g"
  shows "0 \<le> path_weight (wt0 (edges g)) (x # p @ [x])"
proof -
  let ?c = "x # p @ [x]" and ?r = "remdups_adj (x # p @ [x])"
  have eq: "path_weight (wt0 (edges g)) ?c = path_weight (wt (edges g)) ?r"
    using path_weight_remdups_adj [of "edges g" ?c] path_weight_distinct_adj [of ?r "edges g"]
    by simp
  have ends: "?r \<noteq> []" "hd ?r = x" "last ?r = x"
    by (simp_all del: remdups_adj.simps)
  show ?thesis
  proof (cases "length ?r \<le> 1")
    case True
    with ends have "?r = [x]"
      by (cases ?r) (auto simp del: remdups_adj.simps)
    then show ?thesis by (simp add: eq del: remdups_adj.simps)
  next
    case False
    with ends obtain ys where "?r = x # ys @ [x]"
      by (cases ?r; cases "tl ?r" rule: rev_cases) (auto simp del: remdups_adj.simps)
    moreover have "\<not> path_weight (wt (edges g)) (x # ys @ [x]) < 0"
      using assms by (auto simp: has_negative_cycle_def negative_cycle_at_def)
    ultimately show ?thesis by (simp add: eq not_less del: remdups_adj.simps)
  qed
qed

lemma nonneg_cycles_step_weight:
  assumes "\<not> has_negative_cycle g"
  shows "nonneg_cycles (step_weight (edges g)) n"
  unfolding nonneg_cycles_def path_weight_step_weight
  using closed_walk_nonneg [OF assms] by simp

lemma fw_mid_init:
  assumes "square n m" "\<And>a b. a < n \<Longrightarrow> b < n \<Longrightarrow> m ! a ! b = W a b"
  shows "fw_mid W n 0 0 0 m"
proof -
  have "upperb W K a b (W a b)" for a b K
    unfolding upperb_def by (rule disjI2, rule exI [of _ "[]"]) simp
  moreover have "lowerb W 0 a b (W a b)" for a b
    by (simp add: lowerb_def)
  ultimately show ?thesis
    using assms by (simp add: fw_mid_def)
qed

lemma relax_matrix_total:
  assumes "square n m"
  shows "\<exists>m'. relax_matrix_exact n m = Inr m' \<and> square n m'"
  unfolding relax_matrix_exact_def
proof (rule for_each_upt_rule [where I = "\<lambda>_. square n"])
  show "square n m" by fact
next
  fix k t assume k: "k < n" and t: "square n t"
  show "\<exists>t'. for_each [0 ..< n] (\<lambda>i. for_each [0 ..< n] (\<lambda>j. relax_cell_exact k i j)) t = Inr t' \<and> square n t'"
  proof (rule for_each_upt_rule [where I = "\<lambda>_. square n"])
    show "square n t" by fact
  next
    fix i t1 assume i: "i < n" and t1: "square n t1"
    show "\<exists>t'. for_each [0 ..< n] (\<lambda>j. relax_cell_exact k i j) t1 = Inr t' \<and> square n t'"
    proof (rule for_each_upt_rule [where I = "\<lambda>_. square n"])
      show "square n t1" by fact
    next
      fix j t2 assume "j < n" "square n t2"
      with relax_cell_nat [of n t2 k i j] k i
      show "\<exists>t'. relax_cell_exact k i j t2 = Inr t' \<and> square n t'" by blast
    qed
  qed
qed

lemma closed_edges_range:
  "graph_inv g \<Longrightarrow> labelled_by_range g \<Longrightarrow> closed_edges (edges g) {0 ..< int (length (nodes g))}"
  by (simp add: graph_inv_def labelled_by_range_def)

lemma init_matrix_total:
  assumes "closed_edges (edges g) {0 ..< int (length (nodes g))}"
  shows "\<exists>m. init_matrix g = Inr m \<and> square (length (nodes g)) m"
proof -
  let ?n = "length (nodes g)"
  from init_edges_total [OF assms square_replicate]
  obtain m1 where m1: "for_each (edges g) (\<lambda>(u, v, weight). set_cell u v (Fin weight))
      (replicate ?n (replicate ?n Infty)) = Inr m1" "square ?n m1"
    by blast
  from init_diag [OF m1(2)] m1(1) show ?thesis
    by (auto simp: init_matrix_def)
qed

lemma init_matrix_cells:
  assumes inv: "graph_inv g" and lab: "labelled_by_range g"
  shows "\<exists>m. init_matrix g = Inr m \<and> square (length (nodes g)) m \<and>
           (\<forall>a<length (nodes g). \<forall>b<length (nodes g). m ! a ! b = step_weight (edges g) a b)"
proof -
  let ?n = "length (nodes g)"
  have cl: "closed_edges (edges g) {0 ..< int ?n}"
    using inv lab by (rule closed_edges_range)
  have dist: "distinct (map (\<lambda>(u, v, w). (u, v)) (edges g))"
    using inv by (simp add: graph_inv_def)
  from init_edges_total [OF cl square_replicate]
  obtain m1 where m1: "for_each (edges g) (\<lambda>(u, v, weight). set_cell u v (Fin weight))
      (replicate ?n (replicate ?n Infty)) = Inr m1" "square ?n m1"
    by blast
  have c1: "m1 ! a ! b = wt (edges g) (int a) (int b)" if "a < ?n" "b < ?n" for a b
    using init_edges_cells [OF cl square_replicate dist m1(1) that] that by simp
  from init_diag [OF m1(2)] obtain m where m: "for_each [0 ..< ?n] (\<lambda>i. set_cell (int i) (int i) (Fin 0)) m1 = Inr m"
    "square ?n m" and c2: "\<And>a b. a < ?n \<Longrightarrow> b < ?n \<Longrightarrow> m ! a ! b = (if a = b then Fin 0 else m1 ! a ! b)"
    by blast
  have "m ! a ! b = step_weight (edges g) a b" if "a < ?n" "b < ?n" for a b
    using that by (simp add: c1 c2 step_weight_def zero_dist_def)
  with m m1(1) show ?thesis
    by (auto simp: init_matrix_def)
qed

section \<open>Results of the engines over the exact sum\<close>

lemma fw_result:
  assumes inv: "graph_inv g" and lab: "labelled_by_range g" and cyc: "\<not> has_negative_cycle g"
  shows "\<exists>m. floyd_warshall_exact g = Inr m \<and>
           fw_mid (step_weight (edges g)) (length (nodes g)) (length (nodes g)) 0 0 m"
proof -
  let ?n = "length (nodes g)" and ?W = "step_weight (edges g)"
  from init_matrix_cells [OF inv lab] obtain m0 where m0: "init_matrix g = Inr m0"
    "square ?n m0" "\<And>a b. a < ?n \<Longrightarrow> b < ?n \<Longrightarrow> m0 ! a ! b = ?W a b"
    by blast
  have "fw_mid ?W ?n 0 0 0 m0"
    using m0(2,3) by (rule fw_mid_init)
  with fw_loops [OF nonneg_cycles_step_weight [OF cyc]]
  obtain m where "relax_matrix_exact ?n m0 = Inr m" "fw_mid ?W ?n ?n 0 0 m"
    unfolding relax_matrix_exact_def by blast
  with m0(1) show ?thesis
    by (simp add: floyd_warshall_exact_def)
qed

lemma fw_triangle:
  assumes mid: "fw_mid W n n 0 0 m" and i: "i < n" and j: "j < n" and k: "k < n"
  shows "m ! i ! j \<le> m ! i ! k + m ! k ! j"
proof (cases "m ! i ! k + m ! k ! j = Infty")
  case True
  then show ?thesis by simp
next
  case False
  then have "m ! i ! k \<noteq> Infty" "m ! k ! j \<noteq> Infty"
    by (auto dest: dist_add_finite)
  moreover from mid i j k have "upperb W n i k (m ! i ! k)" "upperb W n k j (m ! k ! j)"
    and lb: "lowerb W n i j (m ! i ! j)"
    by (simp_all add: fw_mid_def)
  ultimately obtain p q where p: "set p \<subseteq> {..<n}" "m ! i ! k = path_weight W (i # p @ [k])"
    and q: "set q \<subseteq> {..<n}" "m ! k ! j = path_weight W (k # q @ [j])"
    by (auto simp: upperb_def)
  have "set (p @ k # q) \<subseteq> {..<n}"
    using p(1) q(1) k by simp
  with lb have "m ! i ! j \<le> path_weight W (i # (p @ k # q) @ [j])"
    unfolding lowerb_def by blast
  then show ?thesis
    by (simp add: p(2) q(2) path_weight_split)
qed

lemma fw_exact_triangle:
  assumes "graph_inv g" "labelled_by_range g" "\<not> has_negative_cycle g"
  shows "\<exists>m. floyd_warshall_exact g = Inr m \<and>
           (\<forall>i<length (nodes g). \<forall>j<length (nodes g). \<forall>k<length (nodes g).
              m ! i ! j \<le> m ! i ! k + m ! k ! j)"
proof -
  from fw_result [OF assms] obtain m where m: "floyd_warshall_exact g = Inr m"
    "fw_mid (step_weight (edges g)) (length (nodes g)) (length (nodes g)) 0 0 m"
    by blast
  from fw_triangle [OF m(2)] m(1) show ?thesis by blast
qed

lemma fw_exact_total:
  assumes "graph_inv g" "labelled_by_range g"
  shows "\<exists>m. floyd_warshall_exact g = Inr m \<and> length m = length (nodes g) \<and>
           (\<forall>row \<in> set m. length row = length (nodes g))"
proof -
  from init_matrix_total [OF closed_edges_range [OF assms]]
  obtain m0 where m0: "init_matrix g = Inr m0" "square (length (nodes g)) m0"
    by blast
  from relax_matrix_total [OF m0(2)] m0(1) show ?thesis
    by (auto simp: floyd_warshall_exact_def square_def)
qed

lemma wt_distinct_mem:
  assumes "distinct (map (\<lambda>(u, v, w). (u, v)) E)" "(u, v, w) \<in> set E"
  shows "wt E u v = Fin w"
  using assms
proof (induction E)
  case Nil
  then show ?case by simp
next
  case (Cons e E)
  obtain a b c where e: "e = (a, b, c)" by (cases e)
  show ?case
  proof (cases "(u, v, w) = e")
    case True
    then show ?thesis
      using wt_distinct_Cons [OF Cons.prems(1) [unfolded e], of u v] by (auto simp: e)
  next
    case False
    with Cons.prems have in_E: "(u, v, w) \<in> set E" by simp
    then have "(u, v) \<in> set (map (\<lambda>(u, v, w). (u, v)) E)" by force
    moreover have "(a, b) \<notin> set (map (\<lambda>(u, v, w). (u, v)) E)"
      using Cons.prems(1) by (simp add: e)
    ultimately have "\<not> (a = u \<and> b = v)"
      by blast
    moreover have "wt E u v = Fin w"
      using Cons.IH Cons.prems(1) in_E by simp
    ultimately show ?thesis
      using wt_distinct_Cons [OF Cons.prems(1) [unfolded e], of u v] by (auto simp: e)
  qed
qed

lemma wt_absent: "\<forall>w. (u, v, w) \<notin> set E \<Longrightarrow> wt E u v = Infty"
  by (cases "wt E u v") (auto dest: wt_mem)

lemma init_matrix_one_way:
  assumes "graph_inv g" "labelled_by_range g" "\<not> directed g"
  shows "\<exists>m. init_matrix g = Inr m \<and>
           (\<forall>(u, v, w) \<in> set (edges g). u \<noteq> v \<longrightarrow>
              m ! nat u ! nat v = Fin w \<and> m ! nat v ! nat u = Infty)"
proof -
  let ?n = "length (nodes g)"
  from init_matrix_cells [OF assms(1,2)] obtain m where m: "init_matrix g = Inr m"
    and cells: "\<And>a b. a < ?n \<Longrightarrow> b < ?n \<Longrightarrow> m ! a ! b = step_weight (edges g) a b"
    by blast
  have "m ! nat u ! nat v = Fin w \<and> m ! nat v ! nat u = Infty"
    if e: "(u, v, w) \<in> set (edges g)" and ne: "u \<noteq> v" for u v w
  proof -
    from closed_edges_range [OF assms(1,2)] e have r: "0 \<le> u" "u < int ?n" "0 \<le> v" "v < int ?n"
      by (auto simp: closed_edges_def)
    then have lt: "nat u < ?n" "nat v < ?n" and neq: "nat u \<noteq> nat v"
      using ne by auto
    have "wt (edges g) u v = Fin w"
      using assms(1) e by (intro wt_distinct_mem) (simp_all add: graph_inv_def)
    moreover have "wt (edges g) v u = Infty"
      using assms(1,3) e ne by (intro wt_absent) (auto simp: graph_inv_def)
    ultimately show ?thesis
      using r neq by (simp add: cells [OF lt] cells [OF lt(2,1)] step_weight_def)
  qed
  with m show ?thesis by blast
qed

lemma bf_outcome:
  assumes cl: "closed_edges (edges g) (insert s (set (nodes g)))"
  shows "\<exists>d. for_each [0 ..< length (nodes g) - 1] (\<lambda>_. for_each (edges g) relax_exact)
               (init_distances g s) = Inr d \<and>
             bf_inv (edges g) s (insert s (set (nodes g))) (length (nodes g) - 1) d \<and>
             bellman_ford_exact g s =
               (if \<exists>(u, v, w) \<in> set (edges g). val d u + Fin w < val d v
                then Inl NegativeCycleError else Inr d)"
proof -
  from bf_passes_inv [OF cl, of "length (nodes g) - 1"]
  obtain d where d: "for_each [0 ..< length (nodes g) - 1] (\<lambda>_. for_each (edges g) relax_exact)
      (init_distances g s) = Inr d"
    and inv: "bf_inv (edges g) s (insert s (set (nodes g))) (length (nodes g) - 1) d"
    by blast
  from inv cl have "closed_edges (edges g) (dom d)"
    by (simp add: bf_inv_def)
  then have "for_each (edges g) check_exact d =
      (if \<exists>(u, v, w) \<in> set (edges g). val d u + Fin w < val d v
       then Inl NegativeCycleError else Inr d)"
    by (rule check_scan)
  with d inv show ?thesis
    by (simp add: bellman_ford_exact_def)
qed

lemma feasible_no_cycle:
  assumes feas: "\<And>u v w. (u, v, w) \<in> set (edges g) \<Longrightarrow> val d v \<le> val d u + Fin w"
    and z: "val d s \<le> 0"
    and r: "reachable g s x"
  shows "\<not> negative_cycle_at g x"
proof
  assume "negative_cycle_at g x"
  then obtain ys where neg: "path_weight (wt (edges g)) (x # ys @ [x]) < 0"
    by (auto simp: negative_cycle_at_def)
  from r obtain q where q: "walk_from s q" "last q = x" "path_weight (wt (edges g)) q \<noteq> Infty"
    by (auto simp: reachable_def)
  from z obtain a where a: "val d s = Fin a"
    by (cases "val d s") (simp_all add: zero_dist_def)
  from q(3) obtain b where b: "path_weight (wt (edges g)) q = Fin b"
    by (cases "path_weight (wt (edges g)) q") simp_all
  have "val d x \<le> val d s + path_weight (wt (edges g)) q"
    using feasible_walk [of "edges g" d q, OF feas] q by (simp add: walk_from_def)
  then obtain c where c: "val d x = Fin c"
    by (cases "val d x") (simp_all add: a b)
  from neg obtain e where e: "path_weight (wt (edges g)) (x # ys @ [x]) = Fin e" "e < 0"
    by (cases "path_weight (wt (edges g)) (x # ys @ [x])") (simp_all add: zero_dist_def)
  have "val d x \<le> val d x + path_weight (wt (edges g)) (x # ys @ [x])"
    using feasible_walk [of "edges g" d "x # ys @ [x]", OF feas] by simp
  with c e show False by simp
qed

lemma no_cycle_feasible:
  assumes dist: "distinct (nodes g)" and cl: "closed_edges (edges g) (set (nodes g))"
    and s: "s \<in> set (nodes g)"
    and inv: "bf_inv (edges g) s D (length (nodes g) - 1) d"
    and cyc: "\<And>x. reachable g s x \<Longrightarrow> \<not> negative_cycle_at g x"
    and e: "(u, v, w) \<in> set (edges g)"
  shows "val d v \<le> val d u + Fin w"
proof (cases "val d u = Infty")
  case True
  then show ?thesis by simp
next
  case False
  let ?E = "edges g"
  from inv have r: "reached ?E s d" and b: "bounded ?E s (length (nodes g) - 1) d"
    by (simp_all add: bf_inv_def)
  from r False obtain q where q: "walk_from s q" "last q = u" "path_weight (wt ?E) q \<le> val d u"
    unfolding reached_def by blast
  let ?p = "q @ [v]"
  have pw: "path_weight (wt ?E) ?p = path_weight (wt ?E) q + wt ?E u v"
    using q by (simp add: path_weight_snoc walk_from_def)
  also have "\<dots> \<le> val d u + Fin w"
    using q(3) wt_le [OF e] by (rule add_mono)
  finally have le: "path_weight (wt ?E) ?p \<le> val d u + Fin w" .
  have fin: "path_weight (wt ?E) ?p \<noteq> Infty"
    using le False by (cases "val d u") (auto dest: dist_le_finite)
  have wp: "walk_from s ?p"
    using q(1) by (simp add: walk_from_def)
  have nonneg: "0 \<le> path_weight (wt ?E) (last t # ys @ [last t])"
    if "walk_from s t" "path_weight (wt ?E) t \<noteq> Infty" for t ys
  proof -
    from that have "reachable g s (last t)"
      unfolding reachable_def by blast
    from cyc [OF this] show ?thesis
      by (auto simp: negative_cycle_at_def not_less)
  qed
  from shorten_walk [OF finite_set cl s nonneg wp fin]
  obtain p' where p': "walk_from s p'" "last p' = last ?p" "length p' \<le> card (set (nodes g))"
    "path_weight (wt ?E) p' \<le> path_weight (wt ?E) ?p"
    by blast
  have "card (set (nodes g)) = length (nodes g)"
    using dist by (rule distinct_card)
  moreover have "0 < length (nodes g)"
    using s by (cases "nodes g") simp_all
  ultimately have "length p' \<le> Suc (length (nodes g) - 1)"
    using p'(3) by simp
  with b p'(1) have "val d (last p') \<le> path_weight (wt ?E) p'"
    by (simp add: bounded_def)
  with p'(2,4) le show ?thesis
    by (auto intro: order_trans)
qed

lemma bf_returns_closed:
  assumes "bellman_ford_exact g s = Inr d"
  shows "closed_edges (edges g) (insert s (set (nodes g)))"
proof -
  from assms obtain d1 where d1: "for_each [0 ..< length (nodes g) - 1]
      (\<lambda>_. for_each (edges g) relax_exact) (init_distances g s) = Inr d1"
    and chk: "for_each (edges g) check_exact d1 = Inr d"
    by (auto simp: bellman_ford_exact_def split: sum.splits)
  from passes_dom [OF d1] have "dom d1 = insert s (set (nodes g))"
    by (simp add: dom_init_distances)
  with check_closed [OF chk] show ?thesis by simp
qed

lemma val_eq_Some: "v \<in> dom d \<Longrightarrow> val d v = x \<Longrightarrow> d v = Some x"
  by (auto simp: val_def)

lemmas bf_eval = bellman_ford_exact_def init_distances_def relax_exact_def check_exact_def lookup_def

lemma graph_inv_closed: "graph_inv g \<Longrightarrow> closed_edges (edges g) (insert s (set (nodes g)))"
  by (auto simp: graph_inv_def closed_edges_def)

lemma cycle_example_raises: "bellman_ford_exact cycle_example 0 = Inl NegativeCycleError"
  by (simp add: cycle_example_def bf_eval upt_rec)

lemma relaxes_iff_cycle:
  assumes inv: "graph_inv g" and s: "s \<in> set (nodes g)"
    and binv: "bf_inv (edges g) s D (length (nodes g) - 1) d"
  shows "(\<exists>(u, v, w) \<in> set (edges g). val d u + Fin w < val d v) \<longleftrightarrow>
         (\<exists>x. reachable g s x \<and> negative_cycle_at g x)"
    (is "?R \<longleftrightarrow> ?C")
proof
  assume ?R
  then obtain u v w where e: "(u, v, w) \<in> set (edges g)" "val d u + Fin w < val d v"
    by auto
  show ?C
  proof (rule ccontr)
    assume "\<not> ?C"
    then have cyc: "\<And>x. reachable g s x \<Longrightarrow> \<not> negative_cycle_at g x"
      by blast
    from inv have "distinct (nodes g)" "closed_edges (edges g) (set (nodes g))"
      by (simp_all add: graph_inv_def)
    from no_cycle_feasible [OF this s binv cyc e(1)] e(2) show False
      by simp
  qed
next
  assume ?C
  then obtain x where x: "reachable g s x" "negative_cycle_at g x"
    by blast
  show ?R
  proof (rule ccontr)
    assume nr: "\<not> ?R"
    have feas: "val d v \<le> val d u + Fin w" if "(u, v, w) \<in> set (edges g)" for u v w
      using nr that by (auto simp: not_less)
    from binv have "val d s \<le> 0"
      by (simp add: bf_inv_def)
    with feas have "\<not> negative_cycle_at g x"
      using x(1) by (rule feasible_no_cycle)
    with x(2) show False by simp
  qed
qed

lemma bf_exact_negative_cycle:
  assumes inv: "graph_inv g" and s: "source \<in> set (nodes g)"
  shows "\<exists>d. for_each [0 ..< length (nodes g) - 1] (\<lambda>_. for_each (edges g) relax_exact)
               (init_distances g source) = Inr d \<and>
             (bellman_ford_exact g source = Inl NegativeCycleError \<longleftrightarrow>
                (\<exists>(u, v, w) \<in> set (edges g). val d u + Fin w < val d v)) \<and>
             (bellman_ford_exact g source = Inl NegativeCycleError \<longleftrightarrow>
                (\<exists>x. reachable g source x \<and> negative_cycle_at g x)) \<and>
             (bellman_ford_exact g source = Inl NegativeCycleError \<or> bellman_ford_exact g source = Inr d) \<and>
             bellman_ford_exact cycle_example 0 = Inl NegativeCycleError"
proof -
  from bf_outcome [OF graph_inv_closed [OF inv]]
  obtain d where d: "for_each [0 ..< length (nodes g) - 1] (\<lambda>_. for_each (edges g) relax_exact)
      (init_distances g source) = Inr d"
    and binv: "bf_inv (edges g) source (insert source (set (nodes g))) (length (nodes g) - 1) d"
    and out: "bellman_ford_exact g source =
      (if \<exists>(u, v, w) \<in> set (edges g). val d u + Fin w < val d v
       then Inl NegativeCycleError else Inr d)"
    by blast
  have iff: "(\<exists>(u, v, w) \<in> set (edges g). val d u + Fin w < val d v) \<longleftrightarrow>
      (\<exists>x. reachable g source x \<and> negative_cycle_at g x)"
    using inv s binv by (rule relaxes_iff_cycle)
  have a: "bellman_ford_exact g source = Inl NegativeCycleError \<longleftrightarrow>
      (\<exists>(u, v, w) \<in> set (edges g). val d u + Fin w < val d v)"
    by (simp add: out)
  have b: "bellman_ford_exact g source = Inl NegativeCycleError \<or> bellman_ford_exact g source = Inr d"
    by (simp add: out)
  from d a b iff cycle_example_raises show ?thesis
    by blast
qed

lemma bf_returns_zero:
  assumes "bellman_ford_exact g source = Inr d"
  shows "d source = Some (Fin 0)"
proof -
  let ?E = "edges g"
  from bf_outcome [OF bf_returns_closed [OF assms]]
  obtain d' where binv: "bf_inv ?E source (insert source (set (nodes g))) (length (nodes g) - 1) d'"
    and out: "bellman_ford_exact g source =
      (if \<exists>(u, v, w) \<in> set ?E. val d' u + Fin w < val d' v
       then Inl NegativeCycleError else Inr d')"
    by blast
  from out assms have eq: "d' = d" and nr: "\<not> (\<exists>(u, v, w) \<in> set ?E. val d u + Fin w < val d v)"
    by (auto split: if_splits)
  have feas: "val d v \<le> val d u + Fin w" if "(u, v, w) \<in> set ?E" for u v w
    using nr that by (auto simp: not_less)
  from binv eq have dom: "source \<in> dom d" and r: "reached ?E source d" and z: "val d source \<le> 0"
    by (auto simp: bf_inv_def)
  from z obtain a where a: "val d source = Fin a" "a \<le> 0"
    by (cases "val d source") (simp_all add: zero_dist_def)
  with r obtain p where p: "walk_from source p" "last p = source"
    "path_weight (wt ?E) p \<le> Fin a"
    unfolding reached_def by (metis dist.distinct(1))
  then obtain b where b: "path_weight (wt ?E) p = Fin b" "b \<le> a"
    by (cases "path_weight (wt ?E) p") simp_all
  have "val d (last p) \<le> val d (hd p) + path_weight (wt ?E) p"
    using feasible_walk [of ?E d p, OF feas] p(1) by (simp add: walk_from_def)
  with p(1,2) a b have "a = 0"
    by (simp add: walk_from_def)
  with a(1) dom show ?thesis
    by (simp add: val_eq_Some)
qed

lemma relax_unreached:
  assumes "set es \<subseteq> set E" "closed_edges E V" "V \<subseteq> dom d" "\<And>v. v \<in> V \<Longrightarrow> val d v = Infty"
  shows "for_each es relax_exact d = Inr d \<and> for_each es check_exact d = Inr d"
  using assms(1)
proof (induction es)
  case Nil
  then show ?case by simp
next
  case (Cons e es)
  obtain u v w where e: "e = (u, v, w)" by (cases e)
  with Cons.prems assms(2) have uv: "u \<in> V" "v \<in> V"
    by (auto simp: closed_edges_def)
  with assms(3) have dom: "u \<in> dom d" "v \<in> dom d"
    by auto
  have "val d u = Infty"
    using uv(1) by (rule assms(4))
  then have "relax_exact e d = Inr d" "check_exact e d = Inr d"
    by (simp_all add: e relax_in_dom [OF dom] check_in_dom [OF dom])
  with Cons show ?case by simp
qed

lemma bf_exact_unknown_source:
  assumes "graph_inv g" "source \<notin> set (nodes g)"
  shows "bellman_ford_exact g source = Inr (init_distances g source) \<and>
         init_distances g source source = Some (Fin 0) \<and>
         (\<forall>v \<in> set (nodes g). init_distances g source v = Some Infty)"
proof -
  let ?d = "init_distances g source"
  have cl: "closed_edges (edges g) (set (nodes g))"
    using assms(1) by (simp add: graph_inv_def)
  have sub: "set (nodes g) \<subseteq> dom ?d"
    by (auto simp: dom_init_distances)
  have inf: "val ?d v = Infty" if "v \<in> set (nodes g)" for v
    using that assms(2) by (auto simp: val_init_distances)
  have pass: "for_each (edges g) relax_exact ?d = Inr ?d" and chk: "for_each (edges g) check_exact ?d = Inr ?d"
    using relax_unreached [OF subset_refl cl sub inf] by simp_all
  have "for_each ks (\<lambda>_. for_each (edges g) relax_exact) ?d = Inr ?d" for ks :: "nat list"
    by (induction ks) (simp_all add: pass)
  then have "bellman_ford_exact g source = Inr ?d"
    by (simp add: bellman_ford_exact_def chk)
  moreover have "?d source = Some (Fin 0)"
    by (simp add: init_distances_def)
  moreover have "?d v = Some Infty" if "v \<in> set (nodes g)" for v
    using inf [OF that] sub that by (auto simp: val_def split: option.splits)
  ultimately show ?thesis by blast
qed

lemma path_weight_wt0: "path_weight (wt0 E) p = path_weight (wt E) (remdups_adj p)"
  using path_weight_remdups_adj [of E p] path_weight_distinct_adj [of "remdups_adj p" E]
  by simp

lemma path_weight_mono:
  assumes "\<And>x y. W x y \<le> W' x y"
  shows "path_weight W p \<le> path_weight W' p"
  by (induction p rule: induct_list012) (simp_all add: assms add_mono)

lemma wt0_le_wt:
  assumes "\<not> has_negative_cycle g"
  shows "wt0 (edges g) x y \<le> wt (edges g) x y"
proof (cases "x = y")
  case True
  have "\<not> path_weight (wt (edges g)) (x # [] @ [x]) < 0"
    using assms unfolding has_negative_cycle_def negative_cycle_at_def by blast
  then show ?thesis
    by (simp add: wt0_def True not_less)
next
  case False
  then show ?thesis by (simp add: wt0_def)
qed

lemma nonneg_weights_no_cycle:
  assumes "\<forall>(u, v, w) \<in> set (edges g). 0 \<le> w"
  shows "\<not> has_negative_cycle g"
proof -
  have w: "0 \<le> wt (edges g) a b" for a b
  proof (cases "wt (edges g) a b")
    case (Fin w)
    then have "(a, b, w) \<in> set (edges g)" by (rule wt_mem)
    with assms Fin show ?thesis by (auto simp: zero_dist_def)
  qed simp
  have "0 \<le> path_weight (wt (edges g)) p" for p
    by (induction p rule: induct_list012) (simp_all add: w add_nonneg_nonneg)
  then show ?thesis
    by (simp add: has_negative_cycle_def negative_cycle_at_def not_less)
qed

lemma engines_agree_at:
  assumes inv: "graph_inv g" and lab: "labelled_by_range g" and cyc: "\<not> has_negative_cycle g"
    and s: "s \<in> set (nodes g)" and v: "v \<in> set (nodes g)"
    and bf: "bellman_ford_exact g s = Inr d"
    and binv: "bf_inv (edges g) s D k d"
    and mid: "fw_mid (step_weight (edges g)) (length (nodes g)) (length (nodes g)) 0 0 m"
  shows "val d v = m ! nat s ! nat v"
proof (rule antisym)
  let ?E = "edges g" and ?n = "length (nodes g)"
  let ?a = "nat s" and ?b = "nat v"
  from s v lab have rng: "0 \<le> s" "s < int ?n" "0 \<le> v" "v < int ?n"
    by (auto simp: labelled_by_range_def)
  then have ab: "?a < ?n" "?b < ?n" by simp_all
  from mid ab have ub: "upperb (step_weight ?E) ?n ?a ?b (m ! ?a ! ?b)"
    and lb: "lowerb (step_weight ?E) ?n ?a ?b (m ! ?a ! ?b)"
    by (simp_all add: fw_mid_def)
  from bf_outcome [OF bf_returns_closed [OF bf]] bf
  have nr: "\<not> (\<exists>(u, v, w) \<in> set ?E. val d u + Fin w < val d v)"
    by (auto split: if_splits)
  have feas: "val d y \<le> val d x + Fin w" if "(x, y, w) \<in> set ?E" for x y w
    using nr that by (auto simp: not_less)
  have zero: "val d s = 0"
    using bf_returns_zero [OF bf] by (simp add: val_def zero_dist_def)
  show "val d v \<le> m ! ?a ! ?b"
  proof (cases "m ! ?a ! ?b = Infty")
    case True
    then show ?thesis by simp
  next
    case False
    with ub obtain p where p: "m ! ?a ! ?b = path_weight (step_weight ?E) (?a # p @ [?b])"
      by (auto simp: upperb_def)
    let ?r = "remdups_adj (s # map int p @ [v])"
    have "m ! ?a ! ?b = path_weight (wt ?E) ?r"
      using rng by (simp add: p path_weight_step_weight path_weight_wt0 del: remdups_adj.simps)
    moreover have "?r \<noteq> []" "hd ?r = s" "last ?r = v"
      by (simp_all del: remdups_adj.simps)
    moreover have "val d (last ?r) \<le> val d (hd ?r) + path_weight (wt ?E) ?r"
      by (rule feasible_walk [OF feas]) (simp_all del: remdups_adj.simps)
    ultimately show ?thesis
      by (simp add: zero del: remdups_adj.simps)
  qed
  show "m ! ?a ! ?b \<le> val d v"
  proof (cases "val d v = Infty")
    case True
    then show ?thesis by simp
  next
    case False
    from binv have "reached ?E s d" by (simp add: bf_inv_def)
    with False obtain q where q: "walk_from s q" "last q = v" "path_weight (wt ?E) q \<le> val d v"
      unfolding reached_def by blast
    have fin: "path_weight (wt ?E) q \<noteq> Infty"
      using q(3) False by (rule dist_le_finite)
    have cl: "closed_edges ?E (set (nodes g))"
      using inv by (simp add: graph_inv_def)
    have sub: "set q \<subseteq> {0 ..< int ?n}"
      using path_in_nodes [OF cl fin] q(1) s lab by (simp add: walk_from_def labelled_by_range_def)
    have "m ! ?a ! ?b \<le> path_weight (wt0 ?E) q"
    proof (cases "length q \<le> 1")
      case True
      with q(1,2) have qs: "q = [s]" "v = s"
        by (cases q; auto simp: walk_from_def)+
      have "m ! ?a ! ?b \<le> path_weight (step_weight ?E) (?a # [] @ [?b])"
        using lb unfolding lowerb_def by (metis empty_set empty_subsetI)
      then show ?thesis
        by (simp add: qs step_weight_def)
    next
      case False
      with q(1,2) obtain mid where qm: "q = s # mid @ [v]"
        by (cases q; cases "tl q" rule: rev_cases) (auto simp: walk_from_def)
      with sub have msub: "set mid \<subseteq> {0 ..< int ?n}" by auto
      then have "set (map nat mid) \<subseteq> {..<?n}" by force
      with lb have "m ! ?a ! ?b \<le> path_weight (step_weight ?E) (?a # map nat mid @ [?b])"
        unfolding lowerb_def by blast
      moreover have "map int (map nat mid) = mid"
        using msub by (induction mid) auto
      ultimately show ?thesis
        using rng by (simp add: path_weight_step_weight qm)
    qed
    also have "\<dots> \<le> path_weight (wt ?E) q"
      by (rule path_weight_mono) (rule wt0_le_wt [OF cyc])
    finally show ?thesis
      using q(3) by (rule order_trans)
  qed
qed

lemma engines_agree_exact:
  assumes inv: "graph_inv g" and lab: "labelled_by_range g" and cyc: "\<not> has_negative_cycle g"
    and s: "source \<in> set (nodes g)"
  shows "\<exists>d m. bellman_ford_exact g source = Inr d \<and> floyd_warshall_exact g = Inr m \<and>
           (\<forall>v \<in> set (nodes g). d v = Some (m ! nat source ! nat v))"
proof -
  from bf_outcome [OF graph_inv_closed [OF inv]]
  obtain d where binv: "bf_inv (edges g) source (insert source (set (nodes g))) (length (nodes g) - 1) d"
    and out: "bellman_ford_exact g source =
      (if \<exists>(u, v, w) \<in> set (edges g). val d u + Fin w < val d v
       then Inl NegativeCycleError else Inr d)"
    by blast
  have "\<not> (\<exists>x. reachable g source x \<and> negative_cycle_at g x)"
    using cyc by (auto simp: has_negative_cycle_def)
  with relaxes_iff_cycle [OF inv s binv] out have bf: "bellman_ford_exact g source = Inr d"
    by simp
  from fw_result [OF inv lab cyc] obtain m where fw: "floyd_warshall_exact g = Inr m"
    and mid: "fw_mid (step_weight (edges g)) (length (nodes g)) (length (nodes g)) 0 0 m"
    by blast
  have "d v = Some (m ! nat source ! nat v)" if v: "v \<in> set (nodes g)" for v
  proof -
    have "val d v = m ! nat source ! nat v"
      using inv lab cyc s v bf binv mid by (rule engines_agree_at)
    moreover from binv v have "v \<in> dom d"
      by (simp add: bf_inv_def)
    ultimately show ?thesis by (simp add: val_eq_Some)
  qed
  with bf fw show ?thesis by blast
qed

section \<open>Python's sum and the exact sum\<close>

lemma py_add_cases: "py_add a b = Inl OverflowError \<or> py_add a b = Inr (a + b)"
  by (cases a; cases b) simp_all

lemma py_add_fits: "fits_float w \<Longrightarrow> py_add a (Fin w) = Inr (a + Fin w)"
  by (cases a) simp_all

lemma for_each_sim:
  assumes "for_each xs f s = r" "r \<noteq> Inl OverflowError"
    and "\<And>x t r'. x \<in> set xs \<Longrightarrow> f x t = r' \<Longrightarrow> r' \<noteq> Inl OverflowError \<Longrightarrow> g x t = r'"
  shows "for_each xs g s = r"
  using assms
proof (induction xs arbitrary: s)
  case Nil
  then show ?case by simp
next
  case (Cons x xs)
  show ?case
  proof (cases "f x s")
    case (Inl e)
    with Cons.prems(1) have r: "r = Inl e" by simp
    with Cons.prems(2) Inl have "g x s = Inl e"
      using Cons.prems(3) [of x s "Inl e"] by simp
    with r show ?thesis by simp
  next
    case (Inr t)
    then have "g x s = Inr t"
      using Cons.prems(3) [of x s "Inr t"] by simp
    moreover have "for_each xs g t = r"
      using Cons.IH [of t] Cons.prems Inr by simp
    ultimately show ?thesis by simp
  qed
qed

lemma for_each_agree:
  assumes "\<And>x t. x \<in> set xs \<Longrightarrow> f x t = g x t"
  shows "for_each xs f s = for_each xs g s"
  using assms by (induction xs arbitrary: s) (auto split: sum.splits)

lemma relax_sim:
  assumes "relax e d = r" "r \<noteq> Inl OverflowError"
  shows "relax_exact e d = r"
proof -
  obtain u v w where e: "e = (u, v, w)" by (cases e)
  show ?thesis
  proof (cases "d u")
    case None
    with assms show ?thesis
      by (simp add: e relax_def relax_exact_def lookup_def)
  next
    case (Some du)
    with assms py_add_cases [of du "Fin w"] show ?thesis
      by (auto simp: e relax_def relax_exact_def lookup_def split: option.splits)
  qed
qed

lemma check_sim:
  assumes "check e d = r" "r \<noteq> Inl OverflowError"
  shows "check_exact e d = r"
proof -
  obtain u v w where e: "e = (u, v, w)" by (cases e)
  show ?thesis
  proof (cases "d u")
    case None
    with assms show ?thesis
      by (simp add: e check_def check_exact_def lookup_def)
  next
    case (Some du)
    with assms py_add_cases [of du "Fin w"] show ?thesis
      by (auto simp: e check_def check_exact_def lookup_def split: option.splits)
  qed
qed

lemma relax_fits: "fits_float w \<Longrightarrow> relax (u, v, w) d = relax_exact (u, v, w) d"
  by (simp add: relax_def relax_exact_def py_add_fits split: sum.splits)

lemma check_fits: "fits_float w \<Longrightarrow> check (u, v, w) d = check_exact (u, v, w) d"
  by (simp add: check_def check_exact_def py_add_fits split: sum.splits)

lemma pass_sim:
  assumes "for_each es relax d = r" "r \<noteq> Inl OverflowError"
  shows "for_each es relax_exact d = r"
  using assms by (rule for_each_sim) (rule relax_sim)

lemma passes_sim:
  assumes "for_each ks (\<lambda>_. for_each es relax) d = r" "r \<noteq> Inl OverflowError"
  shows "for_each ks (\<lambda>_. for_each es relax_exact) d = r"
  using assms by (rule for_each_sim) (rule pass_sim)

lemma bellman_ford_sim:
  assumes "bellman_ford g s = r" "r \<noteq> Inl OverflowError"
  shows "bellman_ford_exact g s = r"
proof (cases "for_each [0 ..< length (nodes g) - 1] (\<lambda>_. for_each (edges g) relax)
    (init_distances g s)")
  case (Inl x)
  with assms have r: "r = Inl x"
    by (simp add: bellman_ford_def)
  with assms(2) Inl have "for_each [0 ..< length (nodes g) - 1]
      (\<lambda>_. for_each (edges g) relax_exact) (init_distances g s) = Inl x"
    by (intro passes_sim) simp_all
  with r show ?thesis
    by (simp add: bellman_ford_exact_def)
next
  case (Inr d)
  then have "for_each [0 ..< length (nodes g) - 1]
      (\<lambda>_. for_each (edges g) relax_exact) (init_distances g s) = Inr d"
    by (intro passes_sim) simp_all
  moreover from Inr assms have "for_each (edges g) check d = r"
    by (simp add: bellman_ford_def)
  then have "for_each (edges g) check_exact d = r"
    using assms(2) by (rule for_each_sim) (rule check_sim)
  ultimately show ?thesis
    by (simp add: bellman_ford_exact_def)
qed

lemma passes_fits:
  assumes "float_weights g"
  shows "for_each ks (\<lambda>_. for_each (edges g) relax) d =
         for_each ks (\<lambda>_. for_each (edges g) relax_exact) d"
proof (rule for_each_agree)
  fix k :: 'a and t
  show "for_each (edges g) relax t = for_each (edges g) relax_exact t"
    using assms by (intro for_each_agree) (auto simp: float_weights_def relax_fits)
qed

lemma bellman_ford_fits:
  assumes "float_weights g"
  shows "bellman_ford g s = bellman_ford_exact g s"
proof -
  have "for_each (edges g) check d = for_each (edges g) check_exact d" for d
    using assms by (intro for_each_agree) (auto simp: float_weights_def check_fits)
  then show ?thesis
    by (simp add: bellman_ford_def bellman_ford_exact_def passes_fits [OF assms]
      split: sum.splits)
qed

lemma small_weights_fit: "small_weights g \<Longrightarrow> float_weights g"
  unfolding small_weights_def float_weights_def fits_float_def
proof (intro ballI, clarify)
  fix u v w
  assume a: "\<forall>(u, v, w) \<in> set (edges g). (int (length (nodes g)) + 1) * \<bar>w\<bar> < float_limit"
    and e: "(u, v, w) \<in> set (edges g)"
  from a e have "(int (length (nodes g)) + 1) * \<bar>w\<bar> < float_limit" by auto
  moreover have "\<bar>w\<bar> \<le> (int (length (nodes g)) + 1) * \<bar>w\<bar>"
    by (simp add: mult_le_cancel_right1)
  ultimately show "- float_limit < w \<and> w < float_limit" by linarith
qed

lemma unreached_pass:
  assumes "closed_edges es V" "V \<subseteq> dom d" "\<And>v. v \<in> V \<Longrightarrow> val d v = Infty"
  shows "for_each es relax d =
           (if \<forall>(u, v, w) \<in> set es. fits_float w then Inr d else Inl OverflowError) \<and>
         for_each es check d =
           (if \<forall>(u, v, w) \<in> set es. fits_float w then Inr d else Inl OverflowError)"
  using assms(1)
proof (induction es)
  case Nil
  show ?case by simp
next
  case (Cons e es)
  obtain u v w where e: "e = (u, v, w)" by (cases e)
  from Cons.prems e have uv: "u \<in> V" "v \<in> V" and cl: "closed_edges es V"
    by (auto simp: closed_edges_def)
  with assms(2) obtain du dv where d: "d u = Some du" "d v = Some dv"
    by (meson domD subsetD)
  with assms(3) [OF uv(1)] assms(3) [OF uv(2)] have inf: "d u = Some Infty" "d v = Some Infty"
    by (simp_all add: val_def)
  have r: "relax e d = (if fits_float w then Inr d else Inl OverflowError)"
    by (simp add: e relax_def lookup_def inf)
  have c: "check e d = (if fits_float w then Inr d else Inl OverflowError)"
    by (simp add: e check_def lookup_def inf)
  from Cons.IH [OF cl] show ?case
    by (auto simp: r [unfolded e] c [unfolded e] e)
qed

section \<open>Floyd-Warshall with Python's sum\<close>

lemma relax_cell_sim:
  assumes "relax_cell k i j m = r" "r \<noteq> Inl OverflowError"
  shows "relax_cell_exact k i j m = r"
proof (cases "get_cell m (int i) (int k)")
  case (Inl e)
  with assms show ?thesis
    by (simp add: relax_cell_def relax_cell_exact_def split: sum.splits)
next
  case b: (Inr b)
  show ?thesis
  proof (cases "get_cell m (int k) (int j)")
    case (Inl e)
    with assms b show ?thesis
      by (simp add: relax_cell_def relax_cell_exact_def split: sum.splits)
  next
    case c: (Inr c)
    with assms b py_add_cases [of b c] show ?thesis
      by (auto simp: relax_cell_def relax_cell_exact_def split: sum.splits)
  qed
qed

lemma relax_matrix_sim:
  assumes "relax_matrix n m = r" "r \<noteq> Inl OverflowError"
  shows "relax_matrix_exact n m = r"
  using assms unfolding relax_matrix_def relax_matrix_exact_def
  by (rule for_each_sim) (erule for_each_sim, assumption, erule for_each_sim, assumption,
    erule relax_cell_sim, assumption)

lemma floyd_warshall_sim:
  assumes "floyd_warshall g = r" "r \<noteq> Inl OverflowError"
  shows "floyd_warshall_exact g = r"
  using assms relax_matrix_sim [of "length (nodes g)" _ r]
  by (auto simp: floyd_warshall_def floyd_warshall_exact_def split: sum.splits)

lemma for_each_list_err:
  assumes "I s"
    and "\<And>x t. x \<in> set xs \<Longrightarrow> I t \<Longrightarrow>
           body x t = Inl OverflowError \<or> (\<exists>t'. body x t = Inr t' \<and> I t')"
  shows "for_each xs body s = Inl OverflowError \<or> (\<exists>s'. for_each xs body s = Inr s' \<and> I s')"
  using assms
proof (induction xs arbitrary: s)
  case Nil
  then show ?case by simp
next
  case (Cons x xs)
  from Cons.prems(2) [of x s] Cons.prems(1)
  consider "body x s = Inl OverflowError" | t where "body x s = Inr t" "I t"
    by auto
  then show ?case
  proof cases
    case 1
    then show ?thesis by simp
  next
    case 2
    from Cons.IH [OF 2(2)] Cons.prems(2) 2(1) show ?thesis
      by (simp add: list.set_intros)
  qed
qed

lemma relax_cell_square:
  assumes "square n m" "k < n" "i < n" "j < n"
  shows "relax_cell k i j m = Inl OverflowError \<or>
         (\<exists>m'. relax_cell k i j m = Inr m' \<and> square n m')"
  using assms py_add_cases [of "m ! i ! k" "m ! k ! j"]
  by (auto simp: relax_cell_def get_cell_nat set_cell_nat square_update)

lemma relax_matrix_square:
  assumes "square n m"
  shows "relax_matrix n m = Inl OverflowError \<or>
         (\<exists>m'. relax_matrix n m = Inr m' \<and> square n m')"
  unfolding relax_matrix_def
proof (rule for_each_list_err [where I = "square n"])
  show "square n m" by fact
next
  fix k t assume k: "k \<in> set [0 ..< n]" and t: "square n t"
  show "for_each [0 ..< n] (\<lambda>i. for_each [0 ..< n] (\<lambda>j. relax_cell k i j)) t = Inl OverflowError \<or>
        (\<exists>t'. for_each [0 ..< n] (\<lambda>i. for_each [0 ..< n] (\<lambda>j. relax_cell k i j)) t = Inr t' \<and>
           square n t')"
  proof (rule for_each_list_err [where I = "square n"])
    show "square n t" by fact
  next
    fix i t1 assume i: "i \<in> set [0 ..< n]" and t1: "square n t1"
    show "for_each [0 ..< n] (\<lambda>j. relax_cell k i j) t1 = Inl OverflowError \<or>
          (\<exists>t'. for_each [0 ..< n] (\<lambda>j. relax_cell k i j) t1 = Inr t' \<and> square n t')"
    proof (rule for_each_list_err [where I = "square n"])
      show "square n t1" by fact
    next
      fix j t2 assume "j \<in> set [0 ..< n]" "square n t2"
      with relax_cell_square [of n t2 k i j] k i
      show "relax_cell k i j t2 = Inl OverflowError \<or>
            (\<exists>t'. relax_cell k i j t2 = Inr t' \<and> square n t')"
        by simp
    qed
  qed
qed

lemma drop_cycles:
  assumes cyc: "nonneg_cycles W n"
  shows "set p \<subseteq> {..<n} \<Longrightarrow>
         \<exists>q. distinct q \<and> set q \<subseteq> set p \<and>
             path_weight W (a # q @ [b]) \<le> path_weight W (a # p @ [b])"
proof (induction "length p" arbitrary: p rule: less_induct)
  case less
  show ?case
  proof (cases "distinct p")
    case True
    then show ?thesis by blast
  next
    case False
    then obtain xs ys zs y where p: "p = xs @ [y] @ ys @ [y] @ zs"
      using not_distinct_decomp by blast
    let ?p' = "xs @ y # zs"
    from less.prems p have y: "y < n" "set ys \<subseteq> {..<n}" and sub: "set ?p' \<subseteq> {..<n}"
      by auto
    have c: "0 \<le> path_weight W (y # ys @ [y])"
      using cyc y by (simp add: nonneg_cycles_def)
    have "path_weight W (a # p @ [b]) =
        path_weight W (a # xs @ [y]) + path_weight W (y # (ys @ y # zs) @ [b])"
      using path_weight_split [of W a xs y "ys @ y # zs" b] by (simp add: p)
    also have "path_weight W (y # (ys @ y # zs) @ [b]) =
        path_weight W (y # ys @ [y]) + path_weight W (y # zs @ [b])"
      using path_weight_split [of W y ys y zs b] by simp
    finally have "path_weight W (a # p @ [b]) =
        path_weight W (a # xs @ [y]) +
        (path_weight W (y # ys @ [y]) + path_weight W (y # zs @ [b]))" .
    moreover have "path_weight W (y # zs @ [b]) \<le>
        path_weight W (y # ys @ [y]) + path_weight W (y # zs @ [b])"
      using c by (rule dist_zero_le_add)
    ultimately have "path_weight W (a # xs @ [y]) + path_weight W (y # zs @ [b]) \<le>
        path_weight W (a # p @ [b])"
      by (simp add: add_left_mono)
    then have le: "path_weight W (a # ?p' @ [b]) \<le> path_weight W (a # p @ [b])"
      using path_weight_split [of W a xs y zs b] by simp
    have "length ?p' < length p"
      by (simp add: p)
    from less.hyps [OF this sub] obtain q where q: "distinct q" "set q \<subseteq> set ?p'"
      "path_weight W (a # q @ [b]) \<le> path_weight W (a # ?p' @ [b])"
      by blast
    from q(2) have "set q \<subseteq> set p"
      by (auto simp: p)
    with q(1) q(3) le show ?thesis
      by (meson order_trans)
  qed
qed

lemma path_weight_bound:
  assumes W: "\<And>x y w. W x y = Fin w \<Longrightarrow> \<bar>w\<bar> \<le> B"
  shows "path_weight W p = Fin t \<Longrightarrow> \<bar>t\<bar> \<le> int (length p - 1) * B"
proof (induction p arbitrary: t rule: induct_list012)
  case 1
  then show ?case by (simp add: zero_dist_def)
next
  case (2 x)
  then show ?case by (simp add: zero_dist_def)
next
  case (3 x y zs)
  from "3.prems" obtain w t' where w: "W x y = Fin w" and t': "path_weight W (y # zs) = Fin t'"
    and t: "t = w + t'"
    by (cases "W x y"; cases "path_weight W (y # zs)") auto
  from "3.IH"(2) [OF t'] have "\<bar>t'\<bar> \<le> int (length zs) * B"
    by simp
  moreover from W [OF w] have "\<bar>w\<bar> \<le> B" .
  ultimately have "\<bar>t\<bar> \<le> B + int (length zs) * B"
    unfolding t by linarith
  then show ?case
    by (simp add: algebra_simps)
qed

lemma fw_entry_fits:
  assumes cyc: "nonneg_cycles W n" and wb: "weight_bound W n B" and K: "K \<le> n"
    and lb: "lowerb W K a b (Fin t)" and ub: "upperb W K a b (Fin t)"
  shows "fits_float t"
proof -
  from wb have B: "0 \<le> B" "(int n + 1) * B < float_limit"
    and W: "\<And>x y w. W x y = Fin w \<Longrightarrow> \<bar>w\<bar> \<le> B"
    by (auto simp: weight_bound_def)
  from ub obtain p where p: "set p \<subseteq> {..<K}" "Fin t = path_weight W (a # p @ [b])"
    by (auto simp: upperb_def)
  from p(1) K have "set p \<subseteq> {..<n}" by auto
  from drop_cycles [OF cyc this, of a b] obtain q where q: "distinct q" "set q \<subseteq> set p"
    "path_weight W (a # q @ [b]) \<le> path_weight W (a # p @ [b])"
    by blast
  from q(2) p(1) have qK: "set q \<subseteq> {..<K}" by auto
  with lb have "Fin t \<le> path_weight W (a # q @ [b])"
    by (simp add: lowerb_def)
  with q(3) p(2) have "path_weight W (a # q @ [b]) = Fin t"
    by simp
  from path_weight_bound [OF W this] have "\<bar>t\<bar> \<le> (int (length q) + 1) * B"
    by (simp add: algebra_simps)
  moreover have "length q \<le> n"
  proof -
    have "card (set q) \<le> card {..<n}"
      using qK K by (intro card_mono) auto
    with q(1) show ?thesis
      by (simp add: distinct_card)
  qed
  then have "(int (length q) + 1) * B \<le> (int n + 1) * B"
    using B(1) by (intro mult_right_mono) simp_all
  ultimately have "\<bar>t\<bar> < float_limit"
    using B(2) by linarith
  then show ?thesis
    by (auto simp: fits_float_def)
qed

lemma fw_cell_fits:
  assumes cyc: "nonneg_cycles W n" and wb: "weight_bound W n B" and k: "k < n"
    and mid: "fw_mid W n k i j m" and a: "a < n" and b: "b < n" and t: "m ! a ! b = Fin t"
  shows "fits_float t"
proof (cases "a < i \<or> (a = i \<and> b < j)")
  case True
  with mid a b have "lowerb W (Suc k) a b (m ! a ! b)" "upperb W (Suc k) a b (m ! a ! b)"
    unfolding fw_mid_def by blast+
  with fw_entry_fits [OF cyc wb, of "Suc k" a b t] k t show ?thesis
    by simp
next
  case False
  with mid a b have "lowerb W k a b (m ! a ! b)" "upperb W k a b (m ! a ! b)"
    unfolding fw_mid_def by blast+
  with fw_entry_fits [OF cyc wb, of k a b t] k t show ?thesis
    by simp
qed

lemma fw_cell_step_py:
  assumes cyc: "nonneg_cycles W n" and wb: "weight_bound W n B"
    and k: "k < n" and i: "i < n" and j: "j < n"
    and mid: "fw_mid W n k i j m"
  shows "\<exists>m'. relax_cell k i j m = Inr m' \<and> fw_mid W n k i (Suc j) m'"
proof -
  from mid have sq: "square n m"
    by (simp add: fw_mid_def)
  have fit: "fits_float t" if "a < n" "b < n" "m ! a ! b = Fin t" for a b t
    using cyc wb k mid that by (rule fw_cell_fits)
  have "py_add (m ! i ! k) (m ! k ! j) = Inr (m ! i ! k + m ! k ! j)"
    using fit [OF i k] fit [OF k j] by (cases "m ! i ! k"; cases "m ! k ! j") simp_all
  then have "relax_cell k i j m = relax_cell_exact k i j m"
    using sq i j k by (simp add: relax_cell_def relax_cell_exact_def get_cell_nat)
  with fw_cell_step [OF cyc k i j mid] show ?thesis
    by simp
qed

lemma fw_mid_row_end: "fw_mid W n k i n m \<Longrightarrow> fw_mid W n k (Suc i) 0 m"
  by (auto simp: fw_mid_def less_Suc_eq)

lemma fw_mid_round_end: "fw_mid W n k n 0 m \<Longrightarrow> fw_mid W n (Suc k) 0 0 m"
  by (auto simp: fw_mid_def intro: upperb_mono [of "Suc k" "Suc (Suc k)"])

lemma fw_loops_py:
  assumes cyc: "nonneg_cycles W n" and wb: "weight_bound W n B" and mid: "fw_mid W n 0 0 0 m"
  shows "\<exists>m'. relax_matrix n m = Inr m' \<and> fw_mid W n n 0 0 m'"
  unfolding relax_matrix_def
proof (rule for_each_upt_rule [where I = "\<lambda>k. fw_mid W n k 0 0"])
  show "fw_mid W n 0 0 0 m" by fact
next
  fix k t assume k: "k < n" and t: "fw_mid W n k 0 0 t"
  have "\<exists>t'. for_each [0 ..< n] (\<lambda>i. for_each [0 ..< n] (\<lambda>j. relax_cell k i j)) t = Inr t' \<and>
          fw_mid W n k n 0 t'"
  proof (rule for_each_upt_rule [where I = "\<lambda>i. fw_mid W n k i 0"])
    show "fw_mid W n k 0 0 t" by fact
  next
    fix i t1 assume i: "i < n" and t1: "fw_mid W n k i 0 t1"
    have "\<exists>t'. for_each [0 ..< n] (\<lambda>j. relax_cell k i j) t1 = Inr t' \<and> fw_mid W n k i n t'"
      by (rule for_each_upt_rule [where I = "fw_mid W n k i"])
        (use t1 fw_cell_step_py [OF cyc wb k i] in auto)
    then show "\<exists>t'. for_each [0 ..< n] (\<lambda>j. relax_cell k i j) t1 = Inr t' \<and>
        fw_mid W n k (Suc i) 0 t'"
      using fw_mid_row_end by blast
  qed
  then show "\<exists>t'. for_each [0 ..< n] (\<lambda>i. for_each [0 ..< n] (\<lambda>j. relax_cell k i j)) t = Inr t' \<and>
      fw_mid W n (Suc k) 0 0 t'"
    using fw_mid_round_end by blast
qed

lemma small_weights_bound:
  assumes "small_weights g"
  shows "\<exists>B. weight_bound (step_weight (edges g)) (length (nodes g)) B"
proof -
  let ?S = "insert 0 ((\<lambda>(u, v, w). \<bar>w\<bar>) ` set (edges g))" and ?n = "length (nodes g)"
  let ?B = "Max ?S"
  have fin: "finite ?S" by simp
  have "?B \<in> ?S"
    using fin by (intro Max_in) simp_all
  then have lim: "(int ?n + 1) * ?B < float_limit"
  proof
    assume "?B = 0"
    then show ?thesis by (simp add: float_limit_def)
  next
    assume "?B \<in> (\<lambda>(u, v, w). \<bar>w\<bar>) ` set (edges g)"
    then obtain u v w where "(u, v, w) \<in> set (edges g)" "?B = \<bar>w\<bar>"
      by auto
    with assms show ?thesis
      by (auto simp: small_weights_def)
  qed
  have nonneg: "0 \<le> ?B"
    using fin by (intro Max_ge) simp_all
  have "\<bar>w\<bar> \<le> ?B" if "step_weight (edges g) x y = Fin w" for x y w
  proof (cases "x = y")
    case True
    with that nonneg show ?thesis
      by (simp add: step_weight_def zero_dist_def)
  next
    case False
    with that have "(int x, int y, w) \<in> set (edges g)"
      by (intro wt_mem) (simp add: step_weight_def)
    then have "\<bar>w\<bar> \<in> ?S" by force
    with fin show ?thesis by (rule Max_ge)
  qed
  with nonneg lim show ?thesis
    unfolding weight_bound_def by blast
qed

lemma fw_returns:
  assumes inv: "graph_inv g" and lab: "labelled_by_range g" and cyc: "\<not> has_negative_cycle g"
    and small: "small_weights g"
  shows "\<exists>m. floyd_warshall g = Inr m"
proof -
  let ?n = "length (nodes g)" and ?W = "step_weight (edges g)"
  from init_matrix_cells [OF inv lab] obtain m0 where m0: "init_matrix g = Inr m0"
    "square ?n m0" "\<And>a b. a < ?n \<Longrightarrow> b < ?n \<Longrightarrow> m0 ! a ! b = ?W a b"
    by blast
  have "fw_mid ?W ?n 0 0 0 m0"
    using m0(2,3) by (rule fw_mid_init)
  moreover from small_weights_bound [OF small] obtain B where "weight_bound ?W ?n B" ..
  ultimately obtain m where "relax_matrix ?n m0 = Inr m"
    using fw_loops_py [OF nonneg_cycles_step_weight [OF cyc]] by blast
  with m0(1) show ?thesis
    by (simp add: floyd_warshall_def)
qed

section \<open>The example graphs\<close>

lemmas graph_eval = graph_inv_def labelled_by_range_def closed_edges_def

lemmas float_eval = float_weights_def small_weights_def fits_float_def float_limit_def

lemmas py_eval = bellman_ford_def init_distances_def relax_def check_def lookup_def
  fits_float_def float_limit_def

lemmas fw_eval = floyd_warshall_def init_matrix_def relax_matrix_def relax_cell_def
  get_cell_def set_cell_def py_index_def fits_float_def float_limit_def

lemma range2: "{0 ..< (2::int)} = {0, 1}" by auto
lemma range3: "{0 ..< (3::int)} = {0, 1, 2}" by auto

lemma fixture_ok: "graph_inv fixture" "labelled_by_range fixture" "\<not> has_negative_cycle fixture"
  "small_weights fixture"
  by (simp_all add: graph_eval fixture_def range3 nonneg_weights_no_cycle float_eval)

lemma single_edge_ok: "graph_inv single_edge" "labelled_by_range single_edge"
  "float_weights single_edge"
  by (simp_all add: graph_eval single_edge_def range2 float_eval)

lemma two_cycle_ok: "graph_inv two_cycle" "labelled_by_range two_cycle"
  by (simp_all add: graph_eval two_cycle_def range2)

lemma cycle_example_ok: "graph_inv cycle_example" "float_weights cycle_example"
  by (simp_all add: graph_eval cycle_example_def float_eval)

lemma big_edge_ok: "graph_inv big_edge" "labelled_by_range big_edge"
  "\<not> has_negative_cycle big_edge" "\<not> float_weights big_edge"
  by (simp_all add: graph_eval big_edge_def range2 nonneg_weights_no_cycle float_eval)

lemma fixture_bf: "bellman_ford fixture 0 = Inr [0 \<mapsto> Fin 0, 1 \<mapsto> Fin 4, 2 \<mapsto> Fin 7]"
  by (simp add: fixture_def py_eval upt_rec fun_upd_twist)

lemma fixture_fw:
  "floyd_warshall fixture = Inr [[Fin 0, Fin 4, Fin 7], [Infty, Fin 0, Fin 3], [Infty, Infty, Fin 0]]"
  by (simp add: fixture_def fw_eval upt_rec)

lemma two_cycle_fw:
  "floyd_warshall two_cycle = Inr [[Fin (- 2), Fin (- 1)], [Fin (- 5), Fin (- 4)]]"
  by (simp add: two_cycle_def fw_eval upt_rec)

lemma big_edge_fw: "floyd_warshall big_edge = Inl OverflowError"
  by (simp add: big_edge_def fw_eval upt_rec)

lemma big_edge_bf: "bellman_ford big_edge 0 = Inr [0 \<mapsto> Fin 0, 1 \<mapsto> Fin (2 ^ 1024)]"
  by (simp add: big_edge_def py_eval upt_rec fun_upd_twist)

lemma passes_unreached:
  assumes pass: "for_each es relax d = (if F then Inr d else Inl OverflowError)"
  shows "for_each ks (\<lambda>_. for_each es relax) d =
           (if ks = [] \<or> F then Inr d else Inl OverflowError)"
  by (induction ks) (simp_all add: pass)

lemma overflow_cycle_bf: "bellman_ford overflow_cycle 0 = Inl OverflowError"
  by (simp add: overflow_cycle_def py_eval upt_rec)

lemma overflow_cycle_walks: "reachable overflow_cycle 0 0" "negative_cycle_at overflow_cycle 0"
proof -
  have "walk_from 0 [0] \<and> last [0] = (0::int) \<and>
      path_weight (wt (edges overflow_cycle)) [0] \<noteq> Infty"
    by (simp add: walk_from_def zero_dist_def)
  then show "reachable overflow_cycle 0 0"
    unfolding reachable_def by blast
  have "path_weight (wt (edges overflow_cycle)) (0 # [1] @ [0]) < 0"
    by (simp add: overflow_cycle_def zero_dist_def)
  then show "negative_cycle_at overflow_cycle 0"
    unfolding negative_cycle_at_def by blast
qed

lemma undirected_triangle_bf:
  "bellman_ford undirected_triangle 0 = Inr [0 \<mapsto> Fin 0, 1 \<mapsto> Fin 1, 2 \<mapsto> Fin (- 5)]"
  by (simp add: undirected_triangle_def py_eval upt_rec fun_upd_twist)

section \<open>The programs on the graph object\<close>

lemma then_do_local [simp]: "then_do (local_step r) f g = (case r of Inl e \<Rightarrow> (Inl e, g) | Inr x \<Rightarrow> f x g)"
  by (simp add: then_do_def local_step_def split: sum.splits)

lemma then_do_nodes [simp]: "then_do nodes_view f g = f (nodes g) g"
  by (simp add: then_do_def nodes_view_def)

lemma then_do_edges [simp]: "then_do edges_view f g = f (edges g) g"
  by (simp add: then_do_def edges_view_def)




section \<open>The claims\<close>

subsection \<open>C1: an undirected edge in the Floyd-Warshall matrix\<close>

text \<open>
  C1 says that \<open>floyd_warshall\<close> starts both cell \<open>(u, v)\<close> and cell \<open>(v, u)\<close> at
  \<open>w\<close> for a stored edge \<open>(u, v, w)\<close> of an undirected graph, so that the returned
  matrix is symmetric.  Line 55 writes cell \<open>(u, v)\<close> only.  For the undirected graph
  with the one edge \<open>0 - 1\<close> of weight 5 the result has 5 in cell \<open>(0, 1)\<close> and
  \<open>+\<infinity>\<close> in cell \<open>(1, 0)\<close>.
\<close>

theorem floyd_warshall_symmetric_counterexample:
  "\<not> directed single_edge \<and>
   floyd_warshall single_edge = Inr [[Fin 0, Fin 5], [Infty, Fin 0]]"
  by (simp add: single_edge_def fw_eval upt_rec)

text \<open>
  C1 as amended: for every undirected graph over the nodes \<open>0, ..., N - 1\<close>, the matrix
  before the relaxation loops holds, for each stored edge \<open>(u, v, w)\<close> with
  \<open>u \<noteq> v\<close>, the weight \<open>w\<close> in cell \<open>(u, v)\<close> and \<open>+\<infinity>\<close> in cell
  \<open>(v, u)\<close>, and 0 in every diagonal cell: the edge is read as the one step
  \<open>u \<rightarrow> v\<close>.
\<close>

theorem init_matrix_undirected:
  assumes "graph_inv g" "labelled_by_range g" "\<not> directed g"
  shows "\<exists>m. init_matrix g = Inr m \<and>
           (\<forall>(u, v, w) \<in> set (edges g). u \<noteq> v \<longrightarrow>
              m ! nat u ! nat v = Fin w \<and> m ! nat v ! nat u = Infty) \<and>
           (\<forall>i<length (nodes g). m ! i ! i = Fin 0)"
proof -
  from init_matrix_one_way [OF assms] obtain m where m: "init_matrix g = Inr m"
    and one_way: "\<forall>(u, v, w) \<in> set (edges g). u \<noteq> v \<longrightarrow>
      m ! nat u ! nat v = Fin w \<and> m ! nat v ! nat u = Infty"
    by blast
  from init_matrix_cells [OF assms(1,2)] m
  have "\<forall>a<length (nodes g). \<forall>b<length (nodes g). m ! a ! b = step_weight (edges g) a b"
    by auto
  then have "\<forall>i<length (nodes g). m ! i ! i = Fin 0"
    by (simp add: step_weight_def zero_dist_def)
  with m one_way show ?thesis by blast
qed

theorem init_matrix_undirected_witness:
  "graph_inv single_edge \<and> labelled_by_range single_edge \<and> \<not> directed single_edge \<and>
   (\<exists>m. init_matrix single_edge = Inr m \<and>
      m ! 0 ! 1 = Fin 5 \<and> m ! 1 ! 0 = Infty \<and> m ! 0 ! 0 = Fin 0 \<and> m ! 1 ! 1 = Fin 0)"
  using init_matrix_undirected [of single_edge] single_edge_ok
  by (auto simp: single_edge_def)

subsection \<open>C2: the two engines agree\<close>

text \<open>
  C2 says that on every graph over the nodes \<open>0, ..., N - 1\<close> without a negative cycle
  the two engines agree from every source node.  On the graph with the one edge
  \<open>0 \<rightarrow> 1\<close> of weight \<open>2^1024\<close>, which has no negative cycle, \<open>bellman_ford\<close> from
  node 0 returns \<open>{0: 0, 1: 2^1024}\<close> and \<open>floyd_warshall\<close> raises
  \<open>OverflowError\<close>: at \<open>k = 0\<close>, \<open>i = 1\<close>, \<open>j = 1\<close> line 63 adds \<open>inf\<close> and
  \<open>2^1024\<close>.
\<close>

theorem engines_agree_counterexample:
  "graph_inv big_edge \<and> labelled_by_range big_edge \<and> \<not> has_negative_cycle big_edge \<and>
   0 \<in> set (nodes big_edge) \<and>
   bellman_ford big_edge 0 = Inr [0 \<mapsto> Fin 0, 1 \<mapsto> Fin (2 ^ 1024)] \<and>
   floyd_warshall big_edge = Inl OverflowError"
  using big_edge_ok big_edge_bf big_edge_fw by (simp add: big_edge_def)

text \<open>
  C2 as amended: for every graph over the nodes \<open>0, ..., N - 1\<close> without a negative
  cycle and every source node \<open>s\<close> of the graph, whenever both engines return,
  \<open>floyd_warshall(graph)[s][v]\<close> equals \<open>bellman_ford(graph, s)[v]\<close> for every node
  \<open>v\<close> (reachable from \<open>s\<close> or not: an unreachable node has \<open>+\<infinity>\<close> in both);
  and both engines do return when the weights are small for the size of the graph.
\<close>

theorem engines_agree:
  assumes inv: "graph_inv g" and lab: "labelled_by_range g" and cyc: "\<not> has_negative_cycle g"
    and s: "source \<in> set (nodes g)"
  shows "(\<forall>d m. bellman_ford g source = Inr d \<and> floyd_warshall g = Inr m \<longrightarrow>
            (\<forall>v \<in> set (nodes g). d v = Some (m ! nat source ! nat v))) \<and>
         (small_weights g \<longrightarrow>
            (\<exists>d m. bellman_ford g source = Inr d \<and> floyd_warshall g = Inr m))"
proof -
  from engines_agree_exact [OF inv lab cyc s] obtain d0 m0
    where bf0: "bellman_ford_exact g source = Inr d0"
      and fw0: "floyd_warshall_exact g = Inr m0"
      and agree: "\<forall>v \<in> set (nodes g). d0 v = Some (m0 ! nat source ! nat v)"
    by blast
  have a: "\<forall>v \<in> set (nodes g). d v = Some (m ! nat source ! nat v)"
    if "bellman_ford g source = Inr d" "floyd_warshall g = Inr m" for d m
  proof -
    from bellman_ford_sim [OF that(1)] bf0 have "d = d0" by simp
    moreover from floyd_warshall_sim [OF that(2)] fw0 have "m = m0" by simp
    ultimately show ?thesis using agree by simp
  qed
  have b: "\<exists>d m. bellman_ford g source = Inr d \<and> floyd_warshall g = Inr m"
    if small: "small_weights g"
  proof -
    from bellman_ford_fits [OF small_weights_fit [OF small]] bf0
    have "bellman_ford g source = Inr d0" by simp
    with fw_returns [OF inv lab cyc small] show ?thesis by blast
  qed
  from a b show ?thesis by blast
qed

theorem engines_agree_witness:
  "graph_inv fixture \<and> labelled_by_range fixture \<and> \<not> has_negative_cycle fixture \<and>
   0 \<in> set (nodes fixture) \<and> small_weights fixture \<and>
   (\<exists>d m. bellman_ford fixture 0 = Inr d \<and> floyd_warshall fixture = Inr m \<and>
      d 0 = Some (m ! 0 ! 0) \<and> d 1 = Some (m ! 0 ! 1) \<and> d 2 = Some (m ! 0 ! 2) \<and>
      m ! 0 ! 2 = Fin 7)"
  using engines_agree [of fixture 0] fixture_ok fixture_bf fixture_fw
  by (simp add: fixture_def)

subsection \<open>C3: a source that is no node of the graph\<close>

text \<open>
  C3 says that \<open>bellman_ford\<close> fails with an \<open>UnknownNode\<close> error when the source is
  absent from the graph.  Line 25 stores the source in the dictionary whether it is a node
  or not, and nothing checks it: on the graph with the one node 0 and the source 5 the
  call returns the vector \<open>{0: inf, 5: 0}\<close>.
\<close>

theorem bellman_ford_unknown_source_counterexample:
  "5 \<notin> set (nodes lone_node) \<and>
   bellman_ford lone_node 5 = Inr [0 \<mapsto> Infty, 5 \<mapsto> Fin 0]"
  by (simp add: lone_node_def py_eval)

text \<open>
  C3 as amended: for every graph and every source value absent from its node set,
  \<open>bellman_ford(graph, source)\<close> raises no error for the unknown source.  Every node of
  the graph keeps the distance \<open>+\<infinity>\<close>, so every sum of lines 29 and 34 is
  \<open>inf + weight\<close>: when every weight has a float the call returns the vector that maps
  the source to 0 and every node of the graph to \<open>+\<infinity>\<close>, and otherwise it raises
  \<open>OverflowError\<close>.
\<close>

theorem bellman_ford_unknown_source:
  assumes "graph_inv g" "source \<notin> set (nodes g)"
  shows "bellman_ford g source =
           (if float_weights g then Inr (init_distances g source) else Inl OverflowError) \<and>
         init_distances g source source = Some (Fin 0) \<and>
         (\<forall>v \<in> set (nodes g). init_distances g source v = Some Infty)"
proof -
  let ?d = "init_distances g source"
  have cl: "closed_edges (edges g) (set (nodes g))"
    using assms(1) by (simp add: graph_inv_def)
  have sub: "set (nodes g) \<subseteq> dom ?d"
    by (auto simp: dom_init_distances)
  have inf: "val ?d v = Infty" if "v \<in> set (nodes g)" for v
    using that assms(2) by (auto simp: val_init_distances)
  have F: "(\<forall>(u, v, w) \<in> set (edges g). fits_float w) = float_weights g"
    by (simp add: float_weights_def)
  from unreached_pass [OF cl sub inf]
  have pass: "for_each (edges g) relax ?d =
      (if float_weights g then Inr ?d else Inl OverflowError)"
    and chk: "for_each (edges g) check ?d =
      (if float_weights g then Inr ?d else Inl OverflowError)"
    unfolding F by simp_all
  have "bellman_ford g source =
      (if float_weights g then Inr ?d else Inl OverflowError)"
    by (simp add: bellman_ford_def passes_unreached [OF pass] chk)
  moreover have "?d source = Some (Fin 0)"
    by (simp add: init_distances_def)
  moreover have "?d v = Some Infty" if "v \<in> set (nodes g)" for v
    using inf [OF that] sub that by (auto simp: val_def split: option.splits)
  ultimately show ?thesis by blast
qed

theorem bellman_ford_unknown_source_witness:
  "graph_inv single_edge \<and> 5 \<notin> set (nodes single_edge) \<and> float_weights single_edge \<and>
   bellman_ford single_edge 5 = Inr (init_distances single_edge 5) \<and>
   init_distances single_edge 5 5 = Some (Fin 0) \<and>
   init_distances single_edge 5 0 = Some Infty \<and>
   init_distances single_edge 5 1 = Some Infty \<and>
   graph_inv big_edge \<and> 5 \<notin> set (nodes big_edge) \<and> \<not> float_weights big_edge \<and>
   bellman_ford big_edge 5 = Inl OverflowError"
  using bellman_ford_unknown_source [of single_edge 5] bellman_ford_unknown_source [of big_edge 5]
    single_edge_ok big_edge_ok
  by (simp add: single_edge_def big_edge_def)

subsection \<open>C4: negative-cycle detection\<close>

text \<open>
  C4 says that \<open>bellman_ford\<close> runs its \<open>|V| - 1\<close> passes and the final scan, and fails
  with \<open>NegativeCycleError\<close> exactly when a negative cycle is reachable from the source.
  Two graphs show otherwise.  On the directed graph with the cycle \<open>0 \<rightarrow> 1 \<rightarrow> 0\<close> of
  weight \<open>-2\<close> and the edge \<open>2 \<rightarrow> 0\<close> of weight \<open>2^1024\<close>, from node 0, the first pass
  adds \<open>inf\<close> and \<open>2^1024\<close> and the call ends in \<open>OverflowError\<close>.  On the undirected
  triangle \<open>0 - 1\<close> (1), \<open>0 - 2\<close> (-5), \<open>1 - 2\<close> (1), whose edges the specification
  lets be traversed both ways, the cycle \<open>0, 1, 2, 0\<close> has weight \<open>-3\<close>, and the call
  from node 0 returns \<open>{0: 0, 1: 1, 2: -5}\<close>: the engine follows each edge in the one
  orientation in which the graph yields it.
\<close>

theorem bellman_ford_negative_cycle_counterexample:
  "directed overflow_cycle \<and> 0 \<in> set (nodes overflow_cycle) \<and>
   reachable overflow_cycle 0 0 \<and> negative_cycle_at overflow_cycle 0 \<and>
   bellman_ford overflow_cycle 0 = Inl OverflowError \<and>
   \<not> directed undirected_triangle \<and>
   path_weight (wt (arcs undirected_triangle)) [0, 1, 2, 0] < 0 \<and>
   bellman_ford undirected_triangle 0 = Inr [0 \<mapsto> Fin 0, 1 \<mapsto> Fin 1, 2 \<mapsto> Fin (- 5)]"
proof -
  have "path_weight (wt (arcs undirected_triangle)) [0, 1, 2, 0] < 0"
    by (simp add: undirected_triangle_def arcs_def zero_dist_def)
  with overflow_cycle_bf overflow_cycle_walks undirected_triangle_bf show ?thesis
    by (simp add: overflow_cycle_def undirected_triangle_def)
qed

text \<open>
  C4 as amended: for a directed graph all of whose weights have a float, and a source
  node of the graph, \<open>bellman_ford\<close> runs its \<open>|V| - 1\<close> relaxation passes to a vector
  \<open>d\<close> and then scans the edges once more; it fails with \<open>NegativeCycleError\<close>
  exactly when some edge still relaxes on \<open>d\<close>, which is exactly when a negative cycle
  is reachable from the source; otherwise it returns \<open>d\<close>.  On the three-node cycle of
  the specification, from node 0, it fails with that error.
\<close>

theorem bellman_ford_negative_cycle:
  assumes inv: "graph_inv g" and dir: "directed g" and s: "source \<in> set (nodes g)"
    and fit: "float_weights g"
  shows "\<exists>d. for_each [0 ..< length (nodes g) - 1] (\<lambda>_. for_each (edges g) relax)
               (init_distances g source) = Inr d \<and>
             (bellman_ford g source = Inl NegativeCycleError \<longleftrightarrow>
                (\<exists>(u, v, w) \<in> set (edges g). val d u + Fin w < val d v)) \<and>
             (bellman_ford g source = Inl NegativeCycleError \<longleftrightarrow>
                (\<exists>x. reachable g source x \<and> negative_cycle_at g x)) \<and>
             (bellman_ford g source = Inl NegativeCycleError \<or> bellman_ford g source = Inr d) \<and>
             bellman_ford cycle_example 0 = Inl NegativeCycleError"
proof -
  have "bellman_ford cycle_example 0 = Inl NegativeCycleError"
    by (simp add: cycle_example_def py_eval upt_rec)
  moreover from bf_exact_negative_cycle [OF inv s] obtain d
    where "for_each [0 ..< length (nodes g) - 1] (\<lambda>_. for_each (edges g) relax_exact)
             (init_distances g source) = Inr d"
      and "bellman_ford_exact g source = Inl NegativeCycleError \<longleftrightarrow>
             (\<exists>(u, v, w) \<in> set (edges g). val d u + Fin w < val d v)"
      and "bellman_ford_exact g source = Inl NegativeCycleError \<longleftrightarrow>
             (\<exists>x. reachable g source x \<and> negative_cycle_at g x)"
      and "bellman_ford_exact g source = Inl NegativeCycleError \<or>
             bellman_ford_exact g source = Inr d"
    by blast
  ultimately show ?thesis
    unfolding bellman_ford_fits [OF fit] passes_fits [OF fit] by blast
qed

theorem bellman_ford_negative_cycle_witness:
  "graph_inv cycle_example \<and> directed cycle_example \<and> 0 \<in> set (nodes cycle_example) \<and>
   float_weights cycle_example \<and>
   bellman_ford cycle_example 0 = Inl NegativeCycleError \<and>
   (\<exists>x. reachable cycle_example 0 x \<and> negative_cycle_at cycle_example x)"
  using bellman_ford_negative_cycle [of cycle_example 0] cycle_example_ok
  by (auto simp: cycle_example_def)

subsection \<open>C7: the triangle inequality\<close>

text \<open>
  C7 says that the matrix \<open>floyd_warshall\<close> returns satisfies
  \<open>dist[i][j] \<le> dist[i][k] + dist[k][j]\<close> for every graph.  On the two-node cycle of
  weight \<open>-2\<close> the result is \<open>[[-2, -1], [-5, -4]]\<close>, and
  \<open>dist[0][0] = -2 > -6 = dist[0][1] + dist[1][0]\<close>.
\<close>

theorem floyd_warshall_triangle_counterexample:
  "graph_inv two_cycle \<and> labelled_by_range two_cycle \<and>
   floyd_warshall two_cycle = Inr [[Fin (- 2), Fin (- 1)], [Fin (- 5), Fin (- 4)]] \<and>
   \<not> projr (floyd_warshall two_cycle) ! 0 ! 0 \<le>
       projr (floyd_warshall two_cycle) ! 0 ! 1 + projr (floyd_warshall two_cycle) ! 1 ! 0"
  using two_cycle_ok by (simp add: two_cycle_fw)

text \<open>
  C7 as amended: for every graph over the nodes \<open>0, ..., N - 1\<close> without a negative
  cycle, whenever \<open>floyd_warshall(graph)\<close> returns, the returned matrix satisfies
  \<open>dist[i][j] \<le> dist[i][k] + dist[k][j]\<close> for all \<open>i, j, k\<close> in \<open>[0, N)\<close>.
\<close>

theorem floyd_warshall_triangle:
  assumes "floyd_warshall g = Inr m"
    and "graph_inv g" "labelled_by_range g" "\<not> has_negative_cycle g"
  shows "\<forall>i<length (nodes g). \<forall>j<length (nodes g). \<forall>k<length (nodes g).
           m ! i ! j \<le> m ! i ! k + m ! k ! j"
  using fw_exact_triangle [OF assms(2-4)] floyd_warshall_sim [OF assms(1)] by auto

theorem floyd_warshall_triangle_witness:
  "graph_inv fixture \<and> labelled_by_range fixture \<and> \<not> has_negative_cycle fixture \<and>
   (\<exists>m. floyd_warshall fixture = Inr m \<and> m ! 0 ! 2 = Fin 7 \<and>
      (\<forall>i<length (nodes fixture). \<forall>j<length (nodes fixture). \<forall>k<length (nodes fixture).
         m ! i ! j \<le> m ! i ! k + m ! k ! j))"
  using floyd_warshall_triangle [OF fixture_fw] fixture_ok fixture_fw
  by simp

subsection \<open>C8: the errors of Floyd-Warshall\<close>

text \<open>
  C8 says that for every graph whose node labels are exactly \<open>0, ..., N - 1\<close> the
  function \<open>floyd_warshall\<close> returns an \<open>N \<times> N\<close> matrix without raising any error.
  On the graph with the one edge \<open>0 \<rightarrow> 1\<close> of weight \<open>2^1024\<close> it raises
  \<open>OverflowError\<close>.
\<close>

theorem floyd_warshall_total_counterexample:
  "graph_inv big_edge \<and> labelled_by_range big_edge \<and>
   floyd_warshall big_edge = Inl OverflowError"
  using big_edge_ok big_edge_fw by simp

text \<open>
  C8 as amended: for every graph whose node labels are exactly \<open>0, ..., N - 1\<close>, with
  or without a negative cycle, every list access of \<open>floyd_warshall\<close> is in range, and
  the function either returns an \<open>N \<times> N\<close> matrix or raises \<open>OverflowError\<close> at a sum
  of \<open>inf\<close> and an integer that has no float.  It returns when the weights are small
  for the size of the graph and the graph has no negative cycle.
\<close>

theorem floyd_warshall_total:
  assumes inv: "graph_inv g" and lab: "labelled_by_range g"
  shows "(floyd_warshall g = Inl OverflowError \<or>
          (\<exists>m. floyd_warshall g = Inr m \<and> length m = length (nodes g) \<and>
             (\<forall>row \<in> set m. length row = length (nodes g)))) \<and>
         (small_weights g \<longrightarrow> \<not> has_negative_cycle g \<longrightarrow> (\<exists>m. floyd_warshall g = Inr m))"
proof -
  from init_matrix_total [OF closed_edges_range [OF inv lab]]
  obtain m0 where m0: "init_matrix g = Inr m0" "square (length (nodes g)) m0"
    by blast
  from relax_matrix_square [OF m0(2)] m0(1)
  have "floyd_warshall g = Inl OverflowError \<or>
      (\<exists>m. floyd_warshall g = Inr m \<and> length m = length (nodes g) \<and>
         (\<forall>row \<in> set m. length row = length (nodes g)))"
    by (auto simp: floyd_warshall_def square_def)
  with fw_returns [OF inv lab] show ?thesis by blast
qed

theorem floyd_warshall_total_witness:
  "graph_inv fixture \<and> labelled_by_range fixture \<and> small_weights fixture \<and>
   \<not> has_negative_cycle fixture \<and>
   (\<exists>m. floyd_warshall fixture = Inr m \<and> length m = length (nodes fixture) \<and>
      (\<forall>row \<in> set m. length row = length (nodes fixture))) \<and>
   graph_inv two_cycle \<and> labelled_by_range two_cycle \<and>
   (\<exists>m. floyd_warshall two_cycle = Inr m \<and> length m = length (nodes two_cycle) \<and>
      (\<forall>row \<in> set m. length row = length (nodes two_cycle)))"
  using floyd_warshall_total [of fixture] floyd_warshall_total [of two_cycle]
    fixture_ok two_cycle_ok fixture_fw two_cycle_fw
  by simp

subsection \<open>C9: the engines leave the graph as it is\<close>


subsection \<open>C10: the distance of the source\<close>

text \<open>
  C10: whenever \<open>bellman_ford(graph, source)\<close> returns, the returned distance of the
  source is 0.
\<close>

theorem bellman_ford_source_zero:
  assumes "bellman_ford g source = Inr d"
  shows "d source = Some (Fin 0)"
proof -
  from assms have "bellman_ford_exact g source = Inr d"
    by (rule bellman_ford_sim) simp
  then show ?thesis by (rule bf_returns_zero)
qed

theorem bellman_ford_source_zero_witness:
  "bellman_ford fixture 0 = Inr [0 \<mapsto> Fin 0, 1 \<mapsto> Fin 4, 2 \<mapsto> Fin 7] \<and>
   [0 \<mapsto> Fin 0, 1 \<mapsto> Fin 4, 2 \<mapsto> Fin (7::int)] (0::int) = Some (Fin 0)"
  using bellman_ford_source_zero [OF fixture_bf] fixture_bf
  by simp

end
